theory Spec2Isabelle
  imports Complex_Main "HOL-Library.Monad_Syntax"
begin

chapter \<open>Harmonic transforms on the sphere and the rotation group (so3)\<close>

text \<open>
  A shallow embedding of three source files of the so3 package:
  \<^item> the MATLAB prototypes \<open>forward_for_dft\<close> and \<open>inverse_direct\<close> (spherical harmonic
    transforms by factoring of rotations and by direct summation);
  \<^item> the C core \<open>so3_core_mw_inverse_via_ssht\<close> and \<open>so3_core_mw_forward_via_ssht\<close>;
  \<^item> the storage-size computation of the MEX gateway \<open>so3_forward_mex.c\<close>.

  Floating-point numbers are embedded as exact reals and complex numbers. Functions of
  other libraries (SSHT's sampling, Wigner recursion and spherical transforms, FFTW's
  plans) are parameters of the definitions that call them.
\<close>

section \<open>Definitions\<close>

subsection \<open>The storage layouts (\<open>so3_storage_t\<close>)\<close>

text \<open>
  The enumeration \<open>so3_storage_t\<close> is declared in \<open>so3_types.h\<close>. A C enumeration type
  also holds integers that are none of its enumerators; \<open>SO3_STORE_OTHER k\<close> stands for
  such a value.
\<close>

datatype so3_storage_t =
    SO3_STORE_ZERO_FIRST_PAD
  | SO3_STORE_ZERO_FIRST_COMPACT
  | SO3_STORE_NEG_FIRST_PAD
  | SO3_STORE_NEG_FIRST_COMPACT
  | SO3_STORE_OTHER int

subsection \<open>C integers\<close>

text \<open>
  The type \<open>int\<close> of C is taken to be 32 bits wide. Signed overflow is undefined
  behaviour: an operation whose mathematical result leaves the range has no value
  (\<open>None\<close>). Division truncates towards zero.
\<close>

definition INT_MAX :: int where
  "INT_MAX = 2 ^ 31 - 1"

definition INT_MIN :: int where
  "INT_MIN = - (2 ^ 31)"

definition c_int :: "int \<Rightarrow> int option" where
  "c_int x = (if INT_MIN \<le> x \<and> x \<le> INT_MAX then Some x else None)"



definition c_div :: "int \<Rightarrow> int \<Rightarrow> int option" where
  "c_div a b = (if b = 0 then None else c_int (sgn a * sgn b * (\<bar>a\<bar> div \<bar>b\<bar>)))"

subsection \<open>The size of the coefficient vector in \<open>so3_forward_mex.c\<close>\<close>







subsection \<open>The deconvolution weight of \<open>forward_for_dft\<close>, step 4\<close>

text \<open>
  The value the inner loop of step 4 assigns to \<open>w\<close> from \<open>dm = mpp - mp\<close>. MATLAB's
  \<open>mod(dm,2)\<close> takes the sign of the divisor, as \<open>mod\<close> on \<open>int\<close> does.
\<close>

definition step4_w :: "int \<Rightarrow> complex" where
  "step4_w dm =
     (if \<bar>dm\<bar> = 1 then \<i> * of_int dm * of_real pi / 2
      else if dm mod 2 = 0 then 2 / (1 - (of_int dm)\<^sup>2)
      else 0)"

subsection \<open>MATLAB arrays and loops\<close>

text \<open>
  A MATLAB matrix has its two sizes and a value at every pair of subscripts from 1.
  Reading outside the sizes is an error (\<open>None\<close>). Writing at a subscript below 1 is an
  error; writing beyond a size enlarges the matrix, and the new cells hold zero (every
  matrix of the code starts as \<open>zeros\<close>, so a cell never written holds zero).
\<close>

record 'a marray =
  nrows :: int
  ncols :: int
  elem :: "int \<times> int \<Rightarrow> 'a"

definition zeros :: "int \<Rightarrow> int \<Rightarrow> ('a::zero) marray" where
  "zeros r c = \<lparr>nrows = max 0 r, ncols = max 0 c, elem = (\<lambda>_. 0)\<rparr>"

definition mget :: "'a marray \<Rightarrow> int \<Rightarrow> int \<Rightarrow> 'a option" where
  "mget A i j =
     (if 1 \<le> i \<and> i \<le> nrows A \<and> 1 \<le> j \<and> j \<le> ncols A then Some (elem A (i, j)) else None)"

definition mset :: "'a marray \<Rightarrow> int \<Rightarrow> int \<Rightarrow> 'a \<Rightarrow> 'a marray option" where
  "mset A i j v =
     (if 1 \<le> i \<and> 1 \<le> j
      then Some \<lparr>nrows = max (nrows A) i, ncols = max (ncols A) j,
                 elem = (elem A)((i, j) := v)\<rparr>
      else None)"

text \<open>Vectors are lists, read and written with one subscript from 1.\<close>

definition vget :: "'a list \<Rightarrow> int \<Rightarrow> 'a option" where
  "vget v k = (if 1 \<le> k \<and> k \<le> int (length v) then Some (v ! nat (k - 1)) else None)"

definition vset :: "('a::zero) list \<Rightarrow> int \<Rightarrow> 'a \<Rightarrow> 'a list option" where
  "vset v k x =
     (if 1 \<le> k then Some ((v @ replicate (nat k - length v) 0)[nat (k - 1) := x]) else None)"

text \<open>
  \<open>for i = a:b, body, end\<close> (and C's \<open>for (i = a; i <= b; ++i)\<close>): the body runs for
  \<open>a, a + 1, \<dots>, b\<close> on the state, and an error in the body ends the loop.
\<close>

function for_range :: "int \<Rightarrow> int \<Rightarrow> (int \<Rightarrow> 's \<Rightarrow> 's option) \<Rightarrow> 's \<Rightarrow> 's option" where
  "for_range a b body s =
     (if a \<le> b then (case body a s of None \<Rightarrow> None | Some s' \<Rightarrow> for_range (a + 1) b body s')
      else Some s)"
  by pat_completeness auto
termination
  by (relation "measure (\<lambda>(a, b, body, s). nat (b + 1 - a))") auto

subsection \<open>\<open>forward_for_dft\<close>\<close>

text \<open>
  The functions \<open>ssht_sampling\<close> (the colatitudes and longitudes of the sampling grid)
  and \<open>ssht_dl\<close> (one step of the Wigner recursion, from the matrix of degree
  \<open>l - 1\<close> to the matrix of degree \<open>l\<close> at an angle) belong to the SSHT library; the
  transforms take them as parameters.
\<close>

type_synonym sampling = "int \<Rightarrow> real list \<times> real list"
type_synonym dl_step = "real marray \<Rightarrow> int \<Rightarrow> int \<Rightarrow> real \<Rightarrow> real marray"

text \<open>Step 1: the inner loop over \<open>p\<close> that accumulates \<open>sum\<close>.\<close>

definition step1_sum :: "complex marray \<Rightarrow> real list \<Rightarrow> int \<Rightarrow> int \<Rightarrow> complex option" where
  "step1_sum f phis m t =
     for_range 1 (int (length phis))
       (\<lambda>p sum. do {
          phi \<leftarrow> vget phis p;
          ftp \<leftarrow> mget f (t + 1) p;
          Some (sum + ftp * exp (- \<i> * of_int m * of_real phi)) })
       0"

text \<open>Steps 1 and 2: the body of the loop over \<open>t\<close>.\<close>

definition step12_body ::
  "int \<Rightarrow> complex marray \<Rightarrow> real list \<Rightarrow> int \<Rightarrow> int \<Rightarrow> complex marray \<Rightarrow> complex marray option" where
  "step12_body L f phis m t fm = do {
     sum \<leftarrow> step1_sum f phis m t;
     let sum = sum / of_int (2 * L - 1);
     fm \<leftarrow> mset fm (L + m) (L + t) sum;
     if t > 0 then mset fm (L + m) (L - t) ((- 1) powi m * sum) else Some fm }"

definition steps12 ::
  "int \<Rightarrow> complex marray \<Rightarrow> real list \<Rightarrow> real list \<Rightarrow> complex marray \<Rightarrow> complex marray option" where
  "steps12 L f thetas phis fm =
     for_range (- L + 1) (L - 1)
       (\<lambda>m. for_range 0 (int (length thetas) - 1) (\<lambda>t. step12_body L f phis m t))
       fm"

text \<open>Step 3.\<close>

definition step3_sum :: "int \<Rightarrow> complex marray \<Rightarrow> real list \<Rightarrow> int \<Rightarrow> int \<Rightarrow> complex option" where
  "step3_sum L fm thetasExt m mp =
     for_range 0 (int (length thetasExt) - 1)
       (\<lambda>t sum. do {
          theta \<leftarrow> vget thetasExt (t + 1);
          x \<leftarrow> mget fm (L + m) (t + 1);
          Some (sum + x * exp (- \<i> * of_int mp * of_real theta)) })
       0"

definition step3 ::
  "int \<Rightarrow> complex marray \<Rightarrow> real list \<Rightarrow> complex marray \<Rightarrow> complex marray option" where
  "step3 L fm thetasExt fmm =
     for_range (- L + 1) (L - 1)
       (\<lambda>m. for_range (- L + 1) (L - 1)
          (\<lambda>mp fmm. do {
             sum \<leftarrow> step3_sum L fm thetasExt m mp;
             mset fmm (L + m) (L + mp) (sum / of_int (2 * L - 1)) }))
       fmm"

text \<open>Step 4.\<close>

definition step4_sum :: "int \<Rightarrow> complex marray \<Rightarrow> int \<Rightarrow> int \<Rightarrow> complex option" where
  "step4_sum L fmm m mp =
     for_range (- L + 1) (L - 1)
       (\<lambda>mpp sum. do {
          x \<leftarrow> mget fmm (L + m) (L + mpp);
          Some (sum + x * step4_w (mpp - mp)) })
       0"

definition step4 :: "int \<Rightarrow> complex marray \<Rightarrow> complex marray \<Rightarrow> complex marray option" where
  "step4 L fmm gmm =
     for_range (- L + 1) (L - 1)
       (\<lambda>m. for_range (- L + 1) (L - 1)
          (\<lambda>mp gmm. do {
             sum \<leftarrow> step4_sum L fmm m mp;
             mset gmm (L + m) (L + mp) (sum * 2 * of_real pi) }))
       gmm"

text \<open>
  Step 5. The state of the loop over \<open>l\<close> is the Wigner matrix \<open>dl\<close>, the running index
  \<open>lmi\<close> and the coefficient vector \<open>flm\<close>.
\<close>

definition step5_sum :: "int \<Rightarrow> real marray \<Rightarrow> complex marray \<Rightarrow> int \<Rightarrow> complex option" where
  "step5_sum L dl gmm m =
     for_range (- L + 1) (L - 1)
       (\<lambda>mp sum. do {
          a \<leftarrow> mget dl (L + mp) (L + m);
          b \<leftarrow> mget dl (L + mp) L;
          g \<leftarrow> mget gmm (L + m) (L + mp);
          Some (sum + of_real a * of_real b * g) })
       0"

definition step5_body ::
  "int \<Rightarrow> real marray \<Rightarrow> complex marray \<Rightarrow> int \<Rightarrow> int \<Rightarrow> int \<times> complex list
     \<Rightarrow> (int \<times> complex list) option" where
  "step5_body L dl gmm l m = (\<lambda>(lmi, flm). do {
     sum \<leftarrow> step5_sum L dl gmm m;
     flm \<leftarrow> vset flm lmi (sum * \<i> powi m * of_real (sqrt ((2 * of_int l + 1) / (4 * pi))));
     Some (lmi + 1, flm) })"

definition step5 ::
  "dl_step \<Rightarrow> int \<Rightarrow> complex marray \<Rightarrow> real marray \<times> int \<times> complex list
     \<Rightarrow> (real marray \<times> int \<times> complex list) option" where
  "step5 ssht_dl L gmm =
     for_range 0 (L - 1)
       (\<lambda>l (dl, lmi, flm). do {
          let dl = ssht_dl dl L l (pi / 2);
          (lmi, flm) \<leftarrow> for_range (- l) l (step5_body L dl gmm l) (lmi, flm);
          Some (dl, lmi, flm) })"

definition thetasExt_of :: "real list \<Rightarrow> real list" where
  "thetasExt_of thetas = thetas @ map (\<lambda>x. 2 * pi - x) (rev (butlast thetas))"

definition forward_for_dft ::
  "sampling \<Rightarrow> dl_step \<Rightarrow> int \<Rightarrow> complex marray \<Rightarrow> complex list option" where
  "forward_for_dft ssht_sampling ssht_dl L f =
     (if nrows f \<noteq> L \<or> ncols f \<noteq> 2 * L - 1 then None
      else do {
        let (thetas, phis) = ssht_sampling L;
        let thetasExt = thetasExt_of thetas;
        fm \<leftarrow> steps12 L f thetas phis (zeros (2 * L - 1) (2 * L - 1));
        fmm \<leftarrow> step3 L fm thetasExt (zeros (2 * L - 1) (2 * L - 1));
        gmm \<leftarrow> step4 L fmm (zeros (2 * L - 1) (2 * L - 1));
        (dl, lmi, flm) \<leftarrow>
          step5 ssht_dl L gmm (zeros (2 * L - 1) (2 * L - 1), 1, replicate (nat (L\<^sup>2)) 0);
        Some flm })"

subsection \<open>\<open>inverse_direct\<close>\<close>

text \<open>
  The loops over \<open>l\<close> and \<open>m\<close> for one grid point; the state is \<open>sum\<close>, \<open>lmindex\<close> and
  \<open>dl\<close>.
\<close>

definition inverse_direct_body ::
  "int \<Rightarrow> complex list \<Rightarrow> real marray \<Rightarrow> real \<Rightarrow> int \<Rightarrow> int \<Rightarrow> complex \<times> int
     \<Rightarrow> (complex \<times> int) option" where
  "inverse_direct_body L flm dl phi l m = (\<lambda>(sum, lmindex). do {
     c \<leftarrow> vget flm lmindex;
     d \<leftarrow> mget dl (m + L) L;
     Some (sum + c * of_real (sqrt ((2 * of_int l + 1) / (4 * pi))) * of_real d
                 * exp (\<i> * of_int m * of_real phi),
           lmindex + 1) })"

definition inverse_direct_point ::
  "dl_step \<Rightarrow> int \<Rightarrow> complex list \<Rightarrow> real \<Rightarrow> real \<Rightarrow> (complex \<times> int \<times> real marray) option" where
  "inverse_direct_point ssht_dl L flm theta phi =
     for_range 0 (L - 1)
       (\<lambda>l (sum, lmindex, dl). do {
          let dl = ssht_dl dl L l theta;
          (sum, lmindex) \<leftarrow>
            for_range (- l) l (inverse_direct_body L flm dl phi l) (sum, lmindex);
          Some (sum, lmindex, dl) })
       (0, 1, zeros (2 * L - 1) (2 * L - 1))"

definition inverse_direct ::
  "sampling \<Rightarrow> dl_step \<Rightarrow> int \<Rightarrow> complex list \<Rightarrow> complex marray option" where
  "inverse_direct ssht_sampling ssht_dl L flm =
     (if int (length flm) \<noteq> L\<^sup>2 then None
      else do {
        let (thetas, phis) = ssht_sampling L;
        for_range 1 (int (length thetas))
          (\<lambda>j f. do {
             theta \<leftarrow> vget thetas j;
             for_range 1 (int (length phis))
               (\<lambda>k f. do {
                  phi \<leftarrow> vget phis k;
                  (sum, lmindex, dl) \<leftarrow> inverse_direct_point ssht_dl L flm theta phi;
                  mset f j k sum })
               f })
          (zeros (int (length thetas)) (int (length phis))) })"

text \<open>
  The Wigner matrix of degree \<open>l\<close> at an angle, as both transforms obtain it: \<open>ssht_dl\<close>
  applied for the degrees \<open>0, 1, \<dots>, l\<close> in turn, starting from \<open>zeros(2*L-1, 2*L-1)\<close>.
\<close>

fun dl_upto :: "dl_step \<Rightarrow> int \<Rightarrow> real \<Rightarrow> nat \<Rightarrow> real marray" where
  "dl_upto ssht_dl L theta 0 = ssht_dl (zeros (2 * L - 1) (2 * L - 1)) L 0 theta"
| "dl_upto ssht_dl L theta (Suc l) = ssht_dl (dl_upto ssht_dl L theta l) L (int (Suc l)) theta"

subsection \<open>Closed forms of the transforms\<close>

text \<open>
  The values that the loops of \<open>forward_for_dft\<close> leave in \<open>fm\<close>, \<open>fmm\<close> and \<open>gmm\<close>,
  written as sums; the lemmas of the next section show that the loops compute them.
\<close>

definition dft_phi :: "complex marray \<Rightarrow> real list \<Rightarrow> int \<Rightarrow> int \<Rightarrow> complex" where
  "dft_phi f phis m t =
     (\<Sum>p\<in>{1..int (length phis)}.
        elem f (t + 1, p) * exp (- \<i> * of_int m * of_real (phis ! nat (p - 1))))"

definition fm_value :: "int \<Rightarrow> complex marray \<Rightarrow> real list \<Rightarrow> int \<Rightarrow> int \<Rightarrow> complex" where
  "fm_value L f phis m s =
     (if 0 \<le> s then dft_phi f phis m s / of_int (2 * L - 1)
      else (- 1) powi m * (dft_phi f phis m (- s) / of_int (2 * L - 1)))"

definition fmm_value :: "int \<Rightarrow> complex marray \<Rightarrow> real list \<Rightarrow> int \<Rightarrow> int \<Rightarrow> complex" where
  "fmm_value L fm thetasExt m mp =
     (\<Sum>t\<in>{0..int (length thetasExt) - 1}.
        elem fm (L + m, t + 1) * exp (- \<i> * of_int mp * of_real (thetasExt ! nat t)))
     / of_int (2 * L - 1)"

definition gmm_value :: "int \<Rightarrow> complex marray \<Rightarrow> int \<Rightarrow> int \<Rightarrow> complex" where
  "gmm_value L fmm m mp =
     (\<Sum>mpp\<in>{- L + 1..L - 1}. elem fmm (L + m, L + mpp) * step4_w (mpp - mp)) * 2 * of_real pi"

text \<open>
  The deconvolution weight in the words of the specification: \<open>2\<pi>\<close> times
  \<open>i\<pi>d/2\<close> if \<open>|d| = 1\<close>, \<open>2/(1 - d\<^sup>2)\<close> if \<open>d\<close> is even, and \<open>0\<close> otherwise.
\<close>

definition spec_weight :: "int \<Rightarrow> complex" where
  "spec_weight d =
     2 * of_real pi *
       (if \<bar>d\<bar> = 1 then \<i> * of_real pi * of_int d / 2
        else if even d then 2 / (1 - (of_int d)\<^sup>2)
        else 0)"


text \<open>
  One term of the sum of \<open>inverse_direct\<close>, the value of the sum at a grid point, and
  the coefficient that step 5 of \<open>forward_for_dft\<close> stores for degree \<open>l\<close> and order \<open>m\<close>.
\<close>

definition synth_term ::
  "dl_step \<Rightarrow> int \<Rightarrow> complex list \<Rightarrow> real \<Rightarrow> real \<Rightarrow> int \<Rightarrow> int \<Rightarrow> complex" where
  "synth_term ssht_dl L flm theta phi l m =
     flm ! nat (l\<^sup>2 + l + m) * of_real (sqrt ((2 * of_int l + 1) / (4 * pi)))
       * of_real (elem (dl_upto ssht_dl L theta (nat l)) (m + L, L))
       * exp (\<i> * of_int m * of_real phi)"

definition synth_value ::
  "dl_step \<Rightarrow> int \<Rightarrow> complex list \<Rightarrow> real \<Rightarrow> real \<Rightarrow> complex" where
  "synth_value ssht_dl L flm theta phi =
     (\<Sum>l\<in>{0..L - 1}. \<Sum>m\<in>{- l..l}. synth_term ssht_dl L flm theta phi l m)"

definition flm_value :: "dl_step \<Rightarrow> int \<Rightarrow> complex marray \<Rightarrow> int \<Rightarrow> int \<Rightarrow> complex" where
  "flm_value ssht_dl L gmm l m =
     (\<Sum>mp\<in>{- L + 1..L - 1}.
        of_real (elem (dl_upto ssht_dl L (pi / 2) (nat l)) (L + mp, L + m))
          * of_real (elem (dl_upto ssht_dl L (pi / 2) (nat l)) (L + mp, L))
          * elem gmm (L + m, L + mp))
     * \<i> powi m * of_real (sqrt ((2 * of_int l + 1) / (4 * pi)))"

text \<open>The matrices \<open>fm\<close>, \<open>fmm\<close> and \<open>gmm\<close> after their loops, from the matrix before.\<close>

definition fm_array :: "int \<Rightarrow> complex marray \<Rightarrow> real list \<Rightarrow> real list \<Rightarrow> complex marray \<Rightarrow> complex marray" where
  "fm_array L f thetas phis fm =
     fm\<lparr>elem := (\<lambda>(i, j).
          if - L + 1 \<le> i - L \<and> i - L \<le> L - 1 \<and> \<bar>j - L\<bar> < int (length thetas)
          then fm_value L f phis (i - L) (j - L) else elem fm (i, j))\<rparr>"

definition fmm_array :: "int \<Rightarrow> complex marray \<Rightarrow> real list \<Rightarrow> complex marray \<Rightarrow> complex marray" where
  "fmm_array L fm thetasExt fmm =
     fmm\<lparr>elem := (\<lambda>(i, j).
          if - L + 1 \<le> i - L \<and> i - L \<le> L - 1 \<and> (- L + 1 \<le> j - L \<and> j - L \<le> L - 1)
          then fmm_value L fm thetasExt (i - L) (j - L) else elem fmm (i, j))\<rparr>"

definition gmm_array :: "int \<Rightarrow> complex marray \<Rightarrow> complex marray \<Rightarrow> complex marray" where
  "gmm_array L fmm gmm =
     gmm\<lparr>elem := (\<lambda>(i, j).
          if - L + 1 \<le> i - L \<and> i - L \<le> L - 1 \<and> (- L + 1 \<le> j - L \<and> j - L \<le> L - 1)
          then gmm_value L fmm (i - L) (j - L) else elem gmm (i, j))\<rparr>"

subsection \<open>The sampling grid and the Wigner matrices of degree 0 and 1\<close>

text \<open>
  Modelled from the spec: the grid provider \<open>sphere_grid(L)\<close> of the specification, which
  is SSHT's \<open>ssht_sampling\<close> for the MW sampling scheme (called by both transforms, not
  defined in this package). It returns the \<open>L\<close> colatitudes \<open>(2t+1)\<pi>/(2L-1)\<close>,
  \<open>t = 0..L-1\<close>, and the \<open>2L-1\<close> longitudes \<open>2\<pi>p/(2L-1)\<close>, \<open>p = 0..2L-2\<close>.
\<close>

definition mw_sampling :: sampling where
  "mw_sampling L =
     (map (\<lambda>t. (2 * real_of_int t + 1) * pi / (2 * real_of_int L - 1)) [0..L - 1],
      map (\<lambda>p. 2 * real_of_int p * pi / (2 * real_of_int L - 1)) [0..2 * L - 2])"

text \<open>
  Modelled from the spec: the Wigner-d provider \<open>advance(dl_prev, L, degree, angle)\<close> of
  the specification, which is SSHT's \<open>ssht_dl\<close> (not defined in this package), for the
  degrees 0 and 1 only: the matrix has \<open>2L-1\<close> rows and columns, degree 0 sets the centre
  entry \<open>(L, L)\<close> to 1, and degree 1 sets the block of the orders \<open>-1, 0, 1\<close> to the
  Wigner small-d matrix \<open>d\<^sup>1(\<beta>)\<close>, whose centre entry is \<open>cos \<beta>\<close>. A higher degree
  leaves the entries as they are; the theorem that uses this model has \<open>L = 2\<close>.
\<close>

definition wigner_d1 :: "int \<Rightarrow> int \<Rightarrow> real \<Rightarrow> real" where
  "wigner_d1 m n beta =
     (if m = n then (if m = 0 then cos beta else (1 + cos beta) / 2)
      else if m = - n then (1 - cos beta) / 2
      else if m - n = 1 then - sin beta / sqrt 2
      else sin beta / sqrt 2)"

definition wigner_dl :: dl_step where
  "wigner_dl dl L l theta =
     \<lparr>nrows = 2 * L - 1, ncols = 2 * L - 1,
      elem = (if l = 0 then (elem dl)((L, L) := 1)
              else if l = 1 then
                (\<lambda>(i, j). if \<bar>i - L\<bar> \<le> 1 \<and> \<bar>j - L\<bar> \<le> 1 then wigner_d1 (i - L) (j - L) theta
                          else elem dl (i, j))
              else elem dl)\<rparr>"

subsection \<open>C buffers, errors and loops\<close>

text \<open>
  A buffer is the memory behind a pointer: its length in elements and the value of each
  cell. Reading or writing outside the buffer is undefined behaviour, which the model
  keeps apart from the errors the package reports: \<open>SO3_ERROR_GENERIC\<close> and
  \<open>SO3_ERROR_MEM_ALLOC_CHECK\<close> (macros of \<open>so3_error.h\<close>) print a message and end the
  program. The integer expressions of the core are evaluated in the type \<open>int\<close> of C:
  \<open>c_val\<close> gives the value of an operation, and signed overflow is undefined behaviour.
\<close>

datatype so3_error =
    SO3_ERROR_GENERIC string
  | SO3_ERROR_MEM_ALLOC
  | Undefined_behaviour

record 'a cbuf =
  len :: int
  cell :: "int \<Rightarrow> 'a"

definition ebind :: "'e + 'a \<Rightarrow> ('a \<Rightarrow> 'e + 'b) \<Rightarrow> 'e + 'b" where
  "ebind m f = (case m of Inl e \<Rightarrow> Inl e | Inr x \<Rightarrow> f x)"

definition rd :: "'a cbuf \<Rightarrow> int \<Rightarrow> so3_error + 'a" where
  "rd b i = (if 0 \<le> i \<and> i < len b then Inr (cell b i) else Inl Undefined_behaviour)"

definition wr :: "'a cbuf \<Rightarrow> int \<Rightarrow> 'a \<Rightarrow> so3_error + 'a cbuf" where
  "wr b i v = (if 0 \<le> i \<and> i < len b then Inr (b\<lparr>cell := (cell b)(i := v)\<rparr>)
               else Inl Undefined_behaviour)"

text \<open>\<open>memcpy(dst + doff, src + soff, cnt * sizeof(complex double))\<close>.\<close>

definition memcpy :: "'a cbuf \<Rightarrow> int \<Rightarrow> 'a cbuf \<Rightarrow> int \<Rightarrow> int \<Rightarrow> so3_error + 'a cbuf" where
  "memcpy dst doff src soff cnt =
     (if 0 \<le> cnt \<and> 0 \<le> doff \<and> doff + cnt \<le> len dst \<and> 0 \<le> soff \<and> soff + cnt \<le> len src
      then Inr (dst\<lparr>cell := (\<lambda>k. if doff \<le> k \<and> k < doff + cnt then cell src (soff + (k - doff))
                                   else cell dst k)\<rparr>)
      else Inl Undefined_behaviour)"

text \<open>
  What a library function reads from a pointer (\<open>cnt\<close> elements from \<open>off\<close>) and what it
  writes through one.
\<close>

definition buf_read :: "'a cbuf \<Rightarrow> int \<Rightarrow> int \<Rightarrow> 'a list" where
  "buf_read b off cnt = map (\<lambda>i. cell b (off + i)) [0..cnt - 1]"

definition buf_write :: "'a cbuf \<Rightarrow> int \<Rightarrow> 'a list \<Rightarrow> so3_error + 'a cbuf" where
  "buf_write b off xs =
     (if 0 \<le> off \<and> off + int (length xs) \<le> len b
      then Inr (b\<lparr>cell := (\<lambda>k. if off \<le> k \<and> k < off + int (length xs) then xs ! nat (k - off)
                                 else cell b k)\<rparr>)
      else Inl Undefined_behaviour)"

text \<open>\<open>for (i = a; i <= b; ++i) body\<close>, where the body may end the program.\<close>

function for_range_e :: "int \<Rightarrow> int \<Rightarrow> (int \<Rightarrow> 's \<Rightarrow> 'e + 's) \<Rightarrow> 's \<Rightarrow> 'e + 's" where
  "for_range_e a b body s =
     (if a \<le> b then (case body a s of Inl e \<Rightarrow> Inl e | Inr s' \<Rightarrow> for_range_e (a + 1) b body s')
      else Inr s)"
  by pat_completeness auto
termination
  by (relation "measure (\<lambda>(a, b, body, s). nat (b + 1 - a))") auto

text \<open>The remainder \<open>a % b\<close> of C, which has the sign of \<open>a\<close>.\<close>

definition c_rem :: "int \<Rightarrow> int \<Rightarrow> int" where
  "c_rem a b = sgn a * (\<bar>a\<bar> mod \<bar>b\<bar>)"

text \<open>The result of one arithmetic operation on \<open>int\<close>s, whose mathematical value is \<open>x\<close>.\<close>

definition c_val :: "int \<Rightarrow> so3_error + int" where
  "c_val x = (if INT_MIN \<le> x \<and> x \<le> INT_MAX then Inr x else Inl Undefined_behaviour)"

subsection \<open>The functions of other libraries that the core calls\<close>

text \<open>
  An FFTW plan made by \<open>fftw_plan_many_dft\<close> is the record of its arguments;
  \<open>fftw_execute\<close> maps the input array to the output array.
\<close>

datatype fftw_sign = FFTW_FORWARD | FFTW_BACKWARD

record fftw_plan =
  fftw_rank :: int
  fftw_n :: int
  fftw_howmany :: int
  fftw_istride :: int
  fftw_idist :: int
  fftw_ostride :: int
  fftw_odist :: int
  fftw_direction :: fftw_sign

text \<open>
  \<open>so3_sampling_elmn2ind\<close> is declared in \<open>so3_sampling.h\<close> (the index of the
  coefficient \<open>(el, m, n)\<close> in a layout); the two spherical transforms belong to SSHT: they
  read the coefficients or samples of one slice and return the samples or coefficients.
\<close>

record externals =
  so3_sampling_elmn2ind :: "int \<Rightarrow> int \<Rightarrow> int \<Rightarrow> int \<Rightarrow> int \<Rightarrow> so3_storage_t \<Rightarrow> int"
  ssht_core_mw_inverse_sov_sym :: "complex list \<Rightarrow> int \<Rightarrow> int \<Rightarrow> complex list"
  ssht_core_mw_forward_sov_conv_sym :: "complex list \<Rightarrow> int \<Rightarrow> int \<Rightarrow> complex list"
  fftw_execute :: "fftw_plan \<Rightarrow> complex list \<Rightarrow> complex list"

text \<open>What the two functions do to the heap and to FFTW, in order.\<close>

datatype event =
    Malloc string
  | Calloc string
  | Free string
  | Fftw_plan_many_dft
  | Fftw_execute
  | Fftw_destroy_plan

subsection \<open>Expressions that both functions evaluate\<close>

definition is_pad :: "so3_storage_t \<Rightarrow> bool" where
  "is_pad storage \<longleftrightarrow> storage = SO3_STORE_ZERO_FIRST_PAD \<or> storage = SO3_STORE_NEG_FIRST_PAD"

definition is_compact :: "so3_storage_t \<Rightarrow> bool" where
  "is_compact storage \<longleftrightarrow>
     storage = SO3_STORE_ZERO_FIRST_COMPACT \<or> storage = SO3_STORE_NEG_FIRST_COMPACT"

text \<open>\<open>fn_n_stride = L * (2*L-1)\<close>.\<close>

definition fn_n_stride_of :: "int \<Rightarrow> so3_error + int" where
  "fn_n_stride_of L = ebind (c_val (2 * L)) (\<lambda>a. ebind (c_val (a - 1)) (\<lambda>b. c_val (L * b)))"

text \<open>
  \<open>(2*N-1)*fn_n_stride\<close>, the number of elements of \<open>fn\<close> and \<open>ftemp\<close>. (The product with
  \<open>sizeof\<close> is a product of \<open>size_t\<close>.)
\<close>

definition fn_size :: "int \<Rightarrow> int \<Rightarrow> so3_error + int" where
  "fn_size N fn_n_stride =
     ebind (c_val (2 * N)) (\<lambda>a. ebind (c_val (a - 1)) (\<lambda>b. c_val (b * fn_n_stride)))"

text \<open>
  \<open>offset = (n < 0 ? n + 2*N-1 : n)\<close>: the slices are stored in the order
  \<open>0, 1, \<dots>, N-1, -N+1, \<dots>, -1\<close> of \<open>n\<close>.
\<close>

definition n_offset :: "int \<Rightarrow> int \<Rightarrow> so3_error + int" where
  "n_offset N n =
     (if n < 0 then ebind (c_val (2 * N)) (\<lambda>a. ebind (c_val (n + a)) (\<lambda>b. c_val (b - 1)))
      else Inr n)"

text \<open>\<open>L*L - n*n\<close>, the number of coefficients of slice \<open>n\<close> in a compact layout.\<close>

definition compact_count :: "int \<Rightarrow> int \<Rightarrow> so3_error + int" where
  "compact_count L n =
     ebind (c_val (L * L)) (\<lambda>a. ebind (c_val (n * n)) (\<lambda>b. c_val (a - b)))"

text \<open>
  The loop over the degrees that rescales the coefficients, in both functions:
  \<open>for (; el < L; ++el) { for (; i < offset + 2*el+1; ++i) buf[base + i] *= factor(el);
  offset = i; }\<close> with \<open>i = offset = 0\<close> before it. The inverse has \<open>base = 0\<close> and starts
  at degree 0; the forward has \<open>base = ind\<close> and starts at the degree the switch sets.
  The factor is a \<open>double\<close> computed from \<open>2*el+1\<close>, which lies between 1 and the bound
  \<open>offset + 2*el+1\<close> of the inner loop, evaluated just before.
\<close>

definition scale_by_degree ::
  "int \<Rightarrow> int \<Rightarrow> int \<Rightarrow> (int \<Rightarrow> complex) \<Rightarrow> complex cbuf \<Rightarrow> so3_error + complex cbuf" where
  "scale_by_degree base el0 L factor buf =
     ebind
       (for_range_e el0 (L - 1)
          (\<lambda>el (buf, i, offset).
             ebind (c_val (2 * el)) (\<lambda>a. ebind (c_val (offset + a)) (\<lambda>b.
             ebind (c_val (b + 1)) (\<lambda>bound.
             ebind
               (for_range_e i (bound - 1)
                  (\<lambda>i buf. ebind (c_val (base + i)) (\<lambda>k.
                            ebind (rd buf k) (\<lambda>v. wr buf k (v * factor el))))
                  buf)
               (\<lambda>buf. let i = max i bound in Inr (buf, i, i))))))
          (buf, 0, 0))
       (\<lambda>(buf, i, offset). Inr buf)"

subsection \<open>\<open>so3_core_mw_inverse_via_ssht\<close>\<close>

text \<open>The \<open>switch (storage)\<close> of the inverse: the coefficients of slice \<open>n\<close> go to \<open>flm\<close>.\<close>

definition inverse_switch ::
  "externals \<Rightarrow> complex cbuf \<Rightarrow> int \<Rightarrow> int \<Rightarrow> so3_storage_t \<Rightarrow> int \<Rightarrow> complex cbuf
     \<Rightarrow> so3_error + complex cbuf" where
  "inverse_switch X flmn L N storage n flm =
     (if is_pad storage then
        (let ind = so3_sampling_elmn2ind X 0 0 n L N storage
         in ebind (c_val (L * L)) (\<lambda>cnt. memcpy flm 0 flmn ind cnt))
      else if is_compact storage then
        (let ind = so3_sampling_elmn2ind X \<bar>n\<bar> (- \<bar>n\<bar>) n L N storage
         in ebind (c_val (n * n)) (\<lambda>nn.
            ebind (compact_count L n) (\<lambda>cnt.
            ebind (memcpy flm nn flmn ind cnt)
              (\<lambda>flm. for_range_e 0 (nn - 1) (\<lambda>i flm. wr flm i 0) flm))))
      else Inl (SO3_ERROR_GENERIC ''Invalid storage method.''))"

text \<open>
  The body of the loop over \<open>n\<close>; its state is the pair of \<open>fn\<close> and \<open>flm\<close>. SSHT reads the
  \<open>L\<^sup>2\<close> coefficients of \<open>flm\<close> and writes its samples from \<open>fn + offset*fn_n_stride\<close> on.
\<close>

definition inverse_slice ::
  "externals \<Rightarrow> complex cbuf \<Rightarrow> int \<Rightarrow> int \<Rightarrow> so3_storage_t \<Rightarrow> int \<Rightarrow> int
     \<Rightarrow> complex cbuf \<times> complex cbuf \<Rightarrow> so3_error + complex cbuf \<times> complex cbuf" where
  "inverse_slice X flmn L N storage fn_n_stride n = (\<lambda>(fn, flm).
     ebind (inverse_switch X flmn L N storage n flm) (\<lambda>flm.
     ebind (scale_by_degree 0 0 L
              (\<lambda>el. of_real (sqrt (of_int (2 * el + 1) / (16 * pi ^ 3)))) flm) (\<lambda>flm.
     ebind (n_offset N n) (\<lambda>offset.
     ebind (c_val (offset * fn_n_stride)) (\<lambda>start.
     ebind (buf_write fn start
              (ssht_core_mw_inverse_sov_sym X (buf_read flm 0 (L * L)) L (- n))) (\<lambda>fn.
     ebind (if c_rem n 2 \<noteq> 0
            then for_range_e 0 (fn_n_stride - 1)
                   (\<lambda>i fn. ebind (c_val (start + i)) (\<lambda>k.
                            ebind (rd fn k) (\<lambda>v. wr fn k (- v))))
                   fn
            else Inr fn) (\<lambda>fn.
     Inr (fn, flm))))))))"

text \<open>
  The whole function. \<open>mem\<close> tells whether the allocation of a buffer succeeds, \<open>fn0\<close> is
  what \<open>malloc\<close> leaves in \<open>fn\<close>. The result is the list of the events and either an error
  or the samples \<open>f\<close> that FFTW writes.
\<close>

definition so3_core_mw_inverse_via_ssht ::
  "externals \<Rightarrow> (string \<Rightarrow> bool) \<Rightarrow> (int \<Rightarrow> complex) \<Rightarrow> complex cbuf \<Rightarrow> int \<Rightarrow> int
     \<Rightarrow> so3_storage_t \<Rightarrow> event list \<times> (so3_error + complex list)" where
  "so3_core_mw_inverse_via_ssht X mem fn0 flmn L N storage =
     (case fn_n_stride_of L of
        Inl e \<Rightarrow> ([], Inl e)
      | Inr fn_n_stride \<Rightarrow>
     (case fn_size N fn_n_stride of
        Inl e \<Rightarrow> ([], Inl e)
      | Inr fn_len \<Rightarrow>
      if \<not> mem ''fn'' then ([], Inl SO3_ERROR_MEM_ALLOC)
      else
        let fn = \<lparr>len = fn_len, cell = fn0\<rparr>;
            plan = \<lparr>fftw_rank = 1, fftw_n = 2 * N - 1, fftw_howmany = fn_n_stride,
                    fftw_istride = fn_n_stride, fftw_idist = 1,
                    fftw_ostride = fn_n_stride, fftw_odist = 1,
                    fftw_direction = FFTW_BACKWARD\<rparr>
        in
        (case c_val (L * L) of
           Inl e \<Rightarrow> ([Malloc ''fn'', Fftw_plan_many_dft], Inl e)
         | Inr flm_len \<Rightarrow>
        if \<not> mem ''flm'' then ([Malloc ''fn'', Fftw_plan_many_dft], Inl SO3_ERROR_MEM_ALLOC)
        else
          let flm = \<lparr>len = flm_len, cell = (\<lambda>_. 0)\<rparr> in
          (case for_range_e (- N + 1) (N - 1) (inverse_slice X flmn L N storage fn_n_stride)
                  (fn, flm) of
             Inl e \<Rightarrow> ([Malloc ''fn'', Fftw_plan_many_dft, Calloc ''flm''], Inl e)
           | Inr (fn, flm) \<Rightarrow>
               ([Malloc ''fn'', Fftw_plan_many_dft, Calloc ''flm'', Free ''flm'',
                 Fftw_execute, Fftw_destroy_plan, Free ''fn''],
                Inr (fftw_execute X plan (buf_read fn 0 fn_len)))))))"

subsection \<open>\<open>so3_core_mw_forward_via_ssht\<close>\<close>

text \<open>
  The \<open>switch (storage)\<close> of the forward: the coefficients of slice \<open>n\<close> go to \<open>flmn\<close>,
  directly or through \<open>flm\<close>; it sets \<open>ind\<close> and the first degree \<open>el\<close> of the loop that
  follows. SSHT reads the \<open>fn_n_stride\<close> samples from \<open>fn + offset*fn_n_stride\<close> on.
\<close>

definition forward_switch ::
  "externals \<Rightarrow> complex cbuf \<Rightarrow> int \<Rightarrow> int \<Rightarrow> so3_storage_t \<Rightarrow> int \<Rightarrow> int \<Rightarrow> int
     \<Rightarrow> complex cbuf \<Rightarrow> complex cbuf
     \<Rightarrow> so3_error + complex cbuf \<times> complex cbuf \<times> int \<times> int" where
  "forward_switch X fn L N storage fn_n_stride n offset flmn flm =
     (if is_pad storage then
        (let ind = so3_sampling_elmn2ind X 0 0 n L N storage in
         ebind (c_val (offset * fn_n_stride)) (\<lambda>start.
         ebind (buf_write flmn ind
                  (ssht_core_mw_forward_sov_conv_sym X (buf_read fn start fn_n_stride) L (- n)))
           (\<lambda>flmn. Inr (flmn, flm, ind, 0))))
      else if is_compact storage then
        ebind (c_val (offset * fn_n_stride)) (\<lambda>start.
        ebind (buf_write flm 0
                 (ssht_core_mw_forward_sov_conv_sym X (buf_read fn start fn_n_stride) L (- n)))
          (\<lambda>flm.
             let ind = so3_sampling_elmn2ind X \<bar>n\<bar> (- \<bar>n\<bar>) n L N storage in
             ebind (c_val (n * n)) (\<lambda>nn.
             ebind (compact_count L n) (\<lambda>cnt.
             ebind (memcpy flmn ind flm nn cnt)
               (\<lambda>flmn. Inr (flmn, flm, ind, \<bar>n\<bar>))))))
      else Inl (SO3_ERROR_GENERIC ''Invalid storage method.''))"

text \<open>The body of the loop over \<open>n\<close>; its state is the pair of \<open>flmn\<close> and \<open>flm\<close>.\<close>

definition forward_slice ::
  "externals \<Rightarrow> complex cbuf \<Rightarrow> int \<Rightarrow> int \<Rightarrow> so3_storage_t \<Rightarrow> int \<Rightarrow> int
     \<Rightarrow> complex cbuf \<times> complex cbuf \<Rightarrow> so3_error + complex cbuf \<times> complex cbuf" where
  "forward_slice X fn L N storage fn_n_stride n = (\<lambda>(flmn, flm).
     let sign = (if c_rem n 2 \<noteq> 0 then - 1 else 1 :: int) in
     ebind (n_offset N n) (\<lambda>offset.
     ebind (forward_switch X fn L N storage fn_n_stride n offset flmn flm)
       (\<lambda>(flmn, flm, ind, el).
          ebind (scale_by_degree ind el L
                   (\<lambda>el. of_int sign * of_real (sqrt (4 * pi / of_int (2 * el + 1)))) flmn)
            (\<lambda>flmn. Inr (flmn, flm)))))"

text \<open>
  The whole function. \<open>f\<close> is the input, \<open>flmn\<close> the output buffer as the caller passes it,
  \<open>flm0\<close> what \<open>malloc\<close> leaves in \<open>flm\<close>. The allocation of \<open>flm\<close> is not checked in the
  source; a failed allocation leaves a null pointer, a buffer of length 0.
\<close>

definition so3_core_mw_forward_via_ssht ::
  "externals \<Rightarrow> (string \<Rightarrow> bool) \<Rightarrow> (int \<Rightarrow> complex) \<Rightarrow> complex cbuf \<Rightarrow> complex cbuf
     \<Rightarrow> int \<Rightarrow> int \<Rightarrow> so3_storage_t \<Rightarrow> event list \<times> (so3_error + complex cbuf)" where
  "so3_core_mw_forward_via_ssht X mem flm0 flmn f L N storage =
     (case fn_n_stride_of L of
        Inl e \<Rightarrow> ([], Inl e)
      | Inr fn_n_stride \<Rightarrow>
     (case fn_size N fn_n_stride of
        Inl e \<Rightarrow> ([], Inl e)
      | Inr fn_len \<Rightarrow>
      if \<not> mem ''ftemp'' then ([], Inl SO3_ERROR_MEM_ALLOC)
      else
        (case memcpy \<lparr>len = fn_len, cell = (\<lambda>_. 0)\<rparr> 0 f 0 fn_len of
           Inl e \<Rightarrow> ([Malloc ''ftemp''], Inl e)
         | Inr ftemp \<Rightarrow>
             if \<not> mem ''fn'' then ([Malloc ''ftemp''], Inl SO3_ERROR_MEM_ALLOC)
             else
               let plan = \<lparr>fftw_rank = 1, fftw_n = 2 * N - 1, fftw_howmany = fn_n_stride,
                           fftw_istride = fn_n_stride, fftw_idist = 1,
                           fftw_ostride = fn_n_stride, fftw_odist = 1,
                           fftw_direction = FFTW_FORWARD\<rparr>;
                   out = fftw_execute X plan (buf_read ftemp 0 fn_len);
                   events = [Malloc ''ftemp'', Malloc ''fn'', Fftw_plan_many_dft, Fftw_execute,
                             Fftw_destroy_plan, Free ''ftemp'']
               in
               (case ebind (buf_write \<lparr>len = fn_len, cell = (\<lambda>_. 0)\<rparr> 0 out)
                       (for_range_e 0 (fn_len - 1)
                          (\<lambda>i fn. ebind (rd fn i)
                                     (\<lambda>v. wr fn i (v * of_real (2 * pi / of_int (2 * N - 1)))))) of
                  Inl e \<Rightarrow> (events, Inl e)
                | Inr fn \<Rightarrow>
                    (case (if is_compact storage then c_val (L * L) else Inr 0) of
                       Inl e \<Rightarrow> (events, Inl e)
                     | Inr flm_len \<Rightarrow>
                    let flm = \<lparr>len = (if is_compact storage \<and> mem ''flm'' then flm_len else 0),
                               cell = flm0\<rparr>;
                        events = events @ (if is_compact storage then [Malloc ''flm''] else [])
                    in
                    (case for_range_e (- N + 1) (N - 1)
                            (forward_slice X fn L N storage fn_n_stride) (flmn, flm) of
                       Inl e \<Rightarrow> (events, Inl e)
                     | Inr (flmn, flm) \<Rightarrow>
                         (events @ (if is_compact storage then [Free ''flm''] else [])
                            @ [Free ''fn''],
                          Inr flmn)))))))"

subsection \<open>What a slice leaves behind\<close>

text \<open>
  The first degree stored for slice \<open>n\<close>, 0 in a padded layout and \<open>|n|\<close> in a compact
  one, and the index in \<open>flmn\<close> of the first coefficient of that degree.
\<close>

definition slice_el0 :: "so3_storage_t \<Rightarrow> int \<Rightarrow> int" where
  "slice_el0 storage n =
     (if storage = SO3_STORE_ZERO_FIRST_COMPACT \<or> storage = SO3_STORE_NEG_FIRST_COMPACT
      then \<bar>n\<bar> else 0)"

definition slice_ind :: "externals \<Rightarrow> int \<Rightarrow> int \<Rightarrow> so3_storage_t \<Rightarrow> int \<Rightarrow> int" where
  "slice_ind X L N storage n =
     so3_sampling_elmn2ind X (slice_el0 storage n) (- slice_el0 storage n) n L N storage"

text \<open>
  The state of \<open>fn\<close> after the inverse has processed slice \<open>n\<close>: for some array \<open>flm\<close> of
  \<open>L\<^sup>2\<close> coefficients, which holds zero below degree \<open>|n|\<close> in a compact layout, the
  coefficient of \<open>flmn\<close> elsewhere, each times \<open>sqrt((2l+1)/(16\<pi>\<^sup>3))\<close>, the slice of \<open>fn\<close> at
  index \<open>n\<close> (\<open>n + 2N - 1\<close> for a negative \<open>n\<close>) holds the samples that SSHT returns for
  \<open>flm\<close> and the spin \<open>-n\<close>, negated when \<open>n\<close> is odd.
\<close>

definition inverse_slice_done ::
  "externals \<Rightarrow> complex cbuf \<Rightarrow> int \<Rightarrow> int \<Rightarrow> so3_storage_t \<Rightarrow> int \<Rightarrow> complex cbuf \<Rightarrow> bool" where
  "inverse_slice_done X flmn L N storage n fn \<longleftrightarrow>
     (\<exists>flm. int (length flm) = L * L
        \<and> (\<forall>l m. 0 \<le> l \<and> l < L \<and> - l \<le> m \<and> m \<le> l \<longrightarrow>
              flm ! nat (l\<^sup>2 + l + m)
                = (if l < slice_el0 storage n then 0
                   else cell flmn (slice_ind X L N storage n
                                    + (l\<^sup>2 + l + m - (slice_el0 storage n)\<^sup>2)))
                  * of_real (sqrt (of_int (2 * l + 1) / (16 * pi ^ 3))))
        \<and> (\<forall>i. 0 \<le> i \<and> i < L * (2 * L - 1) \<longrightarrow>
              cell fn ((if n < 0 then n + 2 * N - 1 else n) * (L * (2 * L - 1)) + i)
                = (if odd n then - 1 else 1)
                  * ssht_core_mw_inverse_sov_sym X flm L (- n) ! nat i))"

text \<open>
  The state of \<open>flmn\<close> after the forward has processed slice \<open>n\<close> of \<open>fn\<close>: the
  coefficients of the degrees from \<open>slice_el0\<close> on are those that SSHT returns for the
  \<open>L(2L-1)\<close> samples of the slice of \<open>fn\<close> at index \<open>n\<close> (\<open>n + 2N - 1\<close> for a negative \<open>n\<close>)
  and the spin \<open>-n\<close>, each times \<open>sign sqrt(4\<pi>/(2l+1))\<close>.
\<close>

definition forward_slice_done ::
  "externals \<Rightarrow> complex cbuf \<Rightarrow> int \<Rightarrow> int \<Rightarrow> so3_storage_t \<Rightarrow> int \<Rightarrow> complex cbuf \<Rightarrow> bool" where
  "forward_slice_done X fn L N storage n flmn \<longleftrightarrow>
     (\<forall>l m. slice_el0 storage n \<le> l \<and> l < L \<and> - l \<le> m \<and> m \<le> l \<longrightarrow>
        cell flmn (slice_ind X L N storage n + (l\<^sup>2 + l + m - (slice_el0 storage n)\<^sup>2))
          = ssht_core_mw_forward_sov_conv_sym X
              (map (\<lambda>i. cell fn ((if n < 0 then n + 2 * N - 1 else n) * (L * (2 * L - 1)) + i))
                 [0..L * (2 * L - 1) - 1])
              L (- n)
              ! nat (l\<^sup>2 + l + m)
            * (of_int (if odd n then - 1 else 1) * of_real (sqrt (4 * pi / of_int (2 * l + 1)))))"

subsection \<open>An instance of the external functions\<close>

text \<open>
  Functions of the right shape to run the core on: the index of a coefficient in the
  padded layout that starts with the most negative \<open>n\<close>, spherical transforms that return
  arrays of the right length, and an FFT that returns its input.
\<close>

definition example_externals :: externals where
  "example_externals =
     \<lparr>so3_sampling_elmn2ind = (\<lambda>el m n L N storage. (N - 1 + n) * (L * L) + el * el + el + m),
      ssht_core_mw_inverse_sov_sym = (\<lambda>flm L spin. replicate (nat (L * (2 * L - 1))) (sum_list flm)),
      ssht_core_mw_forward_sov_conv_sym = (\<lambda>f L spin. replicate (nat (L * L)) (sum_list f)),
      fftw_execute = (\<lambda>plan xs. xs)\<rparr>"

section \<open>Properties\<close>

subsection \<open>Storage sizes\<close>

lemma c_int_Some: "INT_MIN \<le> x \<Longrightarrow> x \<le> INT_MAX \<Longrightarrow> c_int x = Some x"
  by (simp add: c_int_def)

lemma c_int_abs: "\<bar>x\<bar> \<le> A \<Longrightarrow> A \<le> INT_MAX \<Longrightarrow> c_int x = Some x"
  by (rule c_int_Some) (auto simp: INT_MIN_def INT_MAX_def)

lemma trunc_div_exact:
  assumes "(b::int) dvd a" "0 < b"
  shows "sgn a * sgn b * (\<bar>a\<bar> div \<bar>b\<bar>) = a div b"
proof -
  from assms obtain k where k: "a = b * k" by (auto simp: dvd_def)
  from assms(2) have "\<bar>a\<bar> div \<bar>b\<bar> = \<bar>k\<bar>" by (simp add: k abs_mult)
  moreover from assms(2) have "sgn a = sgn k" "sgn b = 1" by (simp_all add: k sgn_mult)
  moreover from assms(2) have "a div b = k" by (simp add: k)
  ultimately show ?thesis by (simp add: sgn_mult_abs)
qed

lemma abs_exact_div_le:
  assumes "(b::int) dvd a" "0 < b" "\<bar>a\<bar> \<le> A"
  shows "\<bar>a div b\<bar> \<le> A"
proof -
  from assms(1) obtain k where k: "a = b * k" by (auto simp: dvd_def)
  from assms(2) have "a div b = k" by (simp add: k)
  moreover have "\<bar>k\<bar> \<le> \<bar>a\<bar>" using assms(2) by (simp add: k abs_mult mult_le_cancel_right1)
  ultimately show ?thesis using assms(3) by simp
qed

lemma c_div_exact:
  assumes "(b::int) dvd a" "0 < b" "\<bar>a\<bar> \<le> A" "A \<le> INT_MAX"
  shows "c_div a b = Some (a div b)"
proof -
  have "c_int (a div b) = Some (a div b)"
    by (rule c_int_abs [OF abs_exact_div_le [OF assms(1-3)] assms(4)])
  moreover have "b \<noteq> 0" using assms(2) by simp
  ultimately show ?thesis
    unfolding c_div_def by (simp only: trunc_div_exact [OF assms(1,2)] if_False)
qed















subsection \<open>The deconvolution weight\<close>

lemma step4_w_unit: "\<bar>dm\<bar> = 1 \<Longrightarrow> step4_w dm = \<i> * of_real (of_int dm * pi / 2)"
  by (simp add: step4_w_def)

lemma step4_w_even: "even dm \<Longrightarrow> step4_w dm = of_real (2 / (1 - (of_int dm)\<^sup>2))"
proof -
  assume e: "even dm"
  then have "\<bar>dm\<bar> \<noteq> 1" by presburger
  with e show ?thesis by (simp add: step4_w_def)
qed

lemma step4_w_odd: "odd dm \<Longrightarrow> \<bar>dm\<bar> \<noteq> 1 \<Longrightarrow> step4_w dm = 0"
  by (simp add: step4_w_def odd_iff_mod_2_eq_one)

text \<open>
  \<^bold>\<open>Claim C4\<close>, as amended. The weight \<open>w(d)\<close> of step 4 is symmetric under
  \<open>d \<rightarrow> -d\<close> at every \<open>d\<close> with \<open>|d| \<noteq> 1\<close> and antisymmetric at \<open>|d| = 1\<close>; it is purely
  imaginary (zero real part, non-zero imaginary part) exactly at \<open>|d| = 1\<close>; and it is
  zero at every odd \<open>d\<close> with \<open>|d| \<noteq> 1\<close>.
\<close>

theorem step4_w_symmetry:
  "(\<bar>d\<bar> \<noteq> 1 \<longrightarrow> step4_w (- d) = step4_w d)
   \<and> (\<bar>d\<bar> = 1 \<longrightarrow> step4_w (- d) = - step4_w d)
   \<and> ((Re (step4_w d) = 0 \<and> Im (step4_w d) \<noteq> 0) \<longleftrightarrow> \<bar>d\<bar> = 1)
   \<and> (odd d \<and> \<bar>d\<bar> \<noteq> 1 \<longrightarrow> step4_w d = 0)"
proof (intro conjI impI)
  assume "\<bar>d\<bar> \<noteq> 1"
  then show "step4_w (- d) = step4_w d"
    by (cases "even d") (simp_all add: step4_w_even step4_w_odd)
next
  assume "\<bar>d\<bar> = 1"
  then show "step4_w (- d) = - step4_w d"
    by (simp add: step4_w_unit)
next
  show "(Re (step4_w d) = 0 \<and> Im (step4_w d) \<noteq> 0) \<longleftrightarrow> \<bar>d\<bar> = 1"
  proof (cases "\<bar>d\<bar> = 1")
    case True
    then have "d \<noteq> 0" by auto
    with True show ?thesis by (simp add: step4_w_unit)
  next
    case False
    then show ?thesis
      by (cases "even d") (simp_all add: step4_w_even step4_w_odd)
  qed
next
  assume "odd d \<and> \<bar>d\<bar> \<noteq> 1"
  then show "step4_w d = 0" by (simp add: step4_w_odd)
qed

theorem step4_w_symmetry_witness:
  "step4_w (- 3) = step4_w 3 \<and> step4_w (- 1) = - step4_w 1 \<and> step4_w 3 = 0
   \<and> step4_w (- 2) = step4_w 2 \<and> Re (step4_w 1) = 0 \<and> Im (step4_w 1) \<noteq> 0"
  using step4_w_symmetry [of 3] step4_w_symmetry [of 1] step4_w_symmetry [of 2] by simp

text \<open>The weight is not symmetric at \<open>d = 1\<close>: \<open>w(-1) = -i\<pi>/2\<close> and \<open>w(1) = i\<pi>/2\<close>.\<close>

theorem step4_w_not_symmetric: "step4_w (- 1) \<noteq> step4_w 1"
  by (simp add: step4_w_def complex_eq_iff)

subsection \<open>Loops\<close>

lemma for_range_empty: "b < a \<Longrightarrow> for_range a b body s = Some s"
  by simp

lemma for_range_step:
  "a \<le> b \<Longrightarrow> for_range a b body s
     = (case body a s of None \<Rightarrow> None | Some s' \<Rightarrow> for_range (a + 1) b body s')"
  by simp

declare for_range.simps [simp del]

lemma for_range_rule:
  assumes "a \<le> b + 1" and "I a s"
    and "\<And>i s. a \<le> i \<Longrightarrow> i \<le> b \<Longrightarrow> I i s \<Longrightarrow> \<exists>s'. body i s = Some s' \<and> I (i + 1) s'"
  shows "\<exists>s'. for_range a b body s = Some s' \<and> I (b + 1) s'"
  using assms
proof (induction "nat (b + 1 - a)" arbitrary: a s)
  case 0
  then have "a = b + 1" by simp
  with 0 show ?case by (simp add: for_range_empty)
next
  case (Suc n)
  then have ab: "a \<le> b" by linarith
  from Suc.prems(3) [OF order_refl ab Suc.prems(2)]
  obtain s1 where s1: "body a s = Some s1" "I (a + 1) s1" by blast
  have "\<exists>s'. for_range (a + 1) b body s1 = Some s' \<and> I (b + 1) s'"
  proof (rule Suc.hyps(1))
    show "n = nat (b + 1 - (a + 1))" using Suc.hyps(2) by linarith
    show "a + 1 \<le> b + 1" using ab by simp
    show "I (a + 1) s1" by (rule s1(2))
    show "\<exists>s'. body i s = Some s' \<and> I (i + 1) s'" if "a + 1 \<le> i" "i \<le> b" "I i s" for i s
      using Suc.prems(3) [of i s] that by simp
  qed
  then show ?case by (simp add: for_range_step [OF ab] s1(1))
qed

lemma sum_int_upto_Suc:
  fixes g :: "int \<Rightarrow> 'a::comm_monoid_add"
  assumes "a \<le> i"
  shows "(\<Sum>k\<in>{a..<i + 1}. g k) = (\<Sum>k\<in>{a..<i}. g k) + g i"
proof -
  have "{a..<i + 1} = insert i {a..<i}" using assms by auto
  then show ?thesis by (simp add: add.commute)
qed

lemma for_range_sum:
  fixes g :: "int \<Rightarrow> 'a::comm_monoid_add"
  assumes "a \<le> b + 1"
    and "\<And>i s. a \<le> i \<Longrightarrow> i \<le> b \<Longrightarrow> body i s = Some (s + g i)"
  shows "for_range a b body s0 = Some (s0 + (\<Sum>i\<in>{a..b}. g i))"
proof -
  have "\<exists>s'. for_range a b body s0 = Some s' \<and> s' = s0 + (\<Sum>k\<in>{a..<b + 1}. g k)"
  proof (rule for_range_rule [where I = "\<lambda>i s. s = s0 + (\<Sum>k\<in>{a..<i}. g k)"])
    show "a \<le> b + 1" by fact
    show "s0 = s0 + (\<Sum>k\<in>{a..<a}. g k)" by simp
    show "\<exists>s'. body i s = Some s' \<and> s' = s0 + (\<Sum>k\<in>{a..<i + 1}. g k)"
      if "a \<le> i" "i \<le> b" "s = s0 + (\<Sum>k\<in>{a..<i}. g k)" for i s
      using that by (simp add: assms(2) sum_int_upto_Suc add.assoc)
  qed
  moreover have "{a..<b + 1} = {a..b}" by auto
  ultimately show ?thesis by simp
qed

lemma mset_inside:
  "1 \<le> i \<Longrightarrow> i \<le> nrows A \<Longrightarrow> 1 \<le> j \<Longrightarrow> j \<le> ncols A
     \<Longrightarrow> mset A i j v = Some (A\<lparr>elem := (elem A)((i, j) := v)\<rparr>)"
  by (simp add: mset_def max_def)

lemma mget_inside:
  "1 \<le> i \<Longrightarrow> i \<le> nrows A \<Longrightarrow> 1 \<le> j \<Longrightarrow> j \<le> ncols A \<Longrightarrow> mget A i j = Some (elem A (i, j))"
  by (simp add: mget_def)

lemma vget_inside: "1 \<le> k \<Longrightarrow> k \<le> int (length v) \<Longrightarrow> vget v k = Some (v ! nat (k - 1))"
  by (simp add: vget_def)

text \<open>Filling part of one row, cell by cell.\<close>

lemma fill_row:
  assumes "c \<le> d + 1"
    and "\<And>mp A. c \<le> mp \<Longrightarrow> mp \<le> d \<Longrightarrow> nrows A = R \<Longrightarrow> ncols A = C
           \<Longrightarrow> body mp A = Some (A\<lparr>elem := (elem A)((r, K + mp) := g mp)\<rparr>)"
    and "nrows A = R" "ncols A = C"
  shows "for_range c d body A
     = Some (A\<lparr>elem := (\<lambda>(i, j). if i = r \<and> c \<le> j - K \<and> j - K \<le> d then g (j - K)
                                   else elem A (i, j))\<rparr>)"
proof -
  let ?F = "\<lambda>n (i, j). if i = r \<and> c \<le> j - K \<and> j - K < n then g (j - K) else elem A (i, j)"
  have "\<exists>s'. for_range c d body A = Some s' \<and> s' = A\<lparr>elem := ?F (d + 1)\<rparr>"
  proof (rule for_range_rule [where I = "\<lambda>n s. s = A\<lparr>elem := ?F n\<rparr>"])
    show "c \<le> d + 1" by fact
    have "?F c = elem A" by (auto simp: fun_eq_iff)
    then show "A = A\<lparr>elem := ?F c\<rparr>" by simp
    show "\<exists>s'. body n s = Some s' \<and> s' = A\<lparr>elem := ?F (n + 1)\<rparr>"
      if "c \<le> n" "n \<le> d" "s = A\<lparr>elem := ?F n\<rparr>" for n s
    proof -
      have "(?F n)((r, K + n) := g n) = ?F (n + 1)" using that(1) by (auto simp: fun_eq_iff)
      then show ?thesis using that assms(3,4) by (simp add: assms(2))
    qed
  qed
  moreover have "?F (d + 1) = (\<lambda>(i, j). if i = r \<and> c \<le> j - K \<and> j - K \<le> d then g (j - K)
                                   else elem A (i, j))"
    by (auto simp: fun_eq_iff)
  ultimately show ?thesis by simp
qed

text \<open>Filling a range of rows, row by row.\<close>

lemma fill_rows:
  assumes "a \<le> b + 1"
    and "\<And>m A. a \<le> m \<Longrightarrow> m \<le> b \<Longrightarrow> nrows A = R \<Longrightarrow> ncols A = C
           \<Longrightarrow> body m A = Some (A\<lparr>elem := (\<lambda>(i, j). if i = K + m \<and> P j then g m j
                                                       else elem A (i, j))\<rparr>)"
    and "nrows A = R" "ncols A = C"
  shows "for_range a b body A
     = Some (A\<lparr>elem := (\<lambda>(i, j). if a \<le> i - K \<and> i - K \<le> b \<and> P j then g (i - K) j
                                   else elem A (i, j))\<rparr>)"
proof -
  let ?F = "\<lambda>n (i, j). if a \<le> i - K \<and> i - K < n \<and> P j then g (i - K) j else elem A (i, j)"
  have "\<exists>s'. for_range a b body A = Some s' \<and> s' = A\<lparr>elem := ?F (b + 1)\<rparr>"
  proof (rule for_range_rule [where I = "\<lambda>n s. s = A\<lparr>elem := ?F n\<rparr>"])
    show "a \<le> b + 1" by fact
    have "?F a = elem A" by (auto simp: fun_eq_iff)
    then show "A = A\<lparr>elem := ?F a\<rparr>" by simp
    show "\<exists>s'. body n s = Some s' \<and> s' = A\<lparr>elem := ?F (n + 1)\<rparr>"
      if "a \<le> n" "n \<le> b" "s = A\<lparr>elem := ?F n\<rparr>" for n s
    proof -
      have "body n s = Some (s\<lparr>elem := (\<lambda>(i, j). if i = K + n \<and> P j then g n j
                                                       else elem s (i, j))\<rparr>)"
        using that assms(3,4) by (intro assms(2)) simp_all
      moreover have "s\<lparr>elem := (\<lambda>(i, j). if i = K + n \<and> P j then g n j
                                                       else elem s (i, j))\<rparr>
          = A\<lparr>elem := ?F (n + 1)\<rparr>"
        unfolding that(3) using that(1) by (auto simp: fun_eq_iff)
      ultimately show ?thesis by simp
    qed
  qed
  moreover have "?F (b + 1) = (\<lambda>(i, j). if a \<le> i - K \<and> i - K \<le> b \<and> P j then g (i - K) j
                                   else elem A (i, j))"
    by (auto simp: fun_eq_iff)
  ultimately show ?thesis by simp
qed

lemma step1_sum_eq:
  assumes "0 \<le> t" "t + 1 \<le> nrows f" "int (length phis) \<le> ncols f"
  shows "step1_sum f phis m t = Some (dft_phi f phis m t)"
proof -
  have "step1_sum f phis m t = Some (0 + dft_phi f phis m t)"
    unfolding step1_sum_def dft_phi_def
  proof (rule for_range_sum)
    show "1 \<le> int (length phis) + 1" by simp
    show "do { phi \<leftarrow> vget phis p; ftp \<leftarrow> mget f (t + 1) p;
               Some (s + ftp * exp (- \<i> * of_int m * of_real phi)) }
        = Some (s + elem f (t + 1, p) * exp (- \<i> * of_int m * of_real (phis ! nat (p - 1))))"
      if "1 \<le> p" "p \<le> int (length phis)" for p s
      using that assms by (simp add: vget_inside mget_inside)
  qed
  then show ?thesis by simp
qed

lemma step12_body_eq:
  assumes "0 \<le> t" "t + 1 \<le> nrows f" "int (length phis) \<le> ncols f"
    and "1 \<le> L + m" "L + m \<le> nrows fm" "t < L" "L + t \<le> ncols fm"
  shows "step12_body L f phis m t fm
     = Some (fm\<lparr>elem := (if t > 0
          then (elem fm)((L + m, L + t) := fm_value L f phis m t,
                         (L + m, L - t) := fm_value L f phis m (- t))
          else (elem fm)((L + m, L + t) := fm_value L f phis m t))\<rparr>)"
proof -
  have 1: "mset fm (L + m) (L + t) v = Some (fm\<lparr>elem := (elem fm)((L + m, L + t) := v)\<rparr>)" for v
    using assms by (intro mset_inside) simp_all
  have 2: "mset (fm\<lparr>elem := e\<rparr>) (L + m) (L - t) v
      = Some (fm\<lparr>elem := e((L + m, L - t) := v)\<rparr>)" for v e
    using assms mset_inside [of "L + m" "fm\<lparr>elem := e\<rparr>" "L - t" v] by simp
  show ?thesis
    using assms(1)
    by (simp add: step12_body_def step1_sum_eq [OF assms(1-3)] 1 2 fm_value_def Let_def)
qed

lemma step12_row:
  assumes "int (length thetas) \<le> L" "int (length thetas) \<le> nrows f" "int (length phis) \<le> ncols f"
    and "1 \<le> L + m" "L + m \<le> R" "L + int (length thetas) - 1 \<le> C"
    and "nrows fm = R" "ncols fm = C"
  shows "for_range 0 (int (length thetas) - 1) (step12_body L f phis m) fm
     = Some (fm\<lparr>elem := (\<lambda>(i, j). if i = L + m \<and> \<bar>j - L\<bar> < int (length thetas)
                                     then fm_value L f phis m (j - L) else elem fm (i, j))\<rparr>)"
proof -
  let ?nt = "int (length thetas)"
  let ?F = "\<lambda>n (i, j). if i = L + m \<and> \<bar>j - L\<bar> < n then fm_value L f phis m (j - L)
                       else elem fm (i, j)"
  have "\<exists>s'. for_range 0 (?nt - 1) (step12_body L f phis m) fm = Some s'
            \<and> s' = fm\<lparr>elem := ?F (?nt - 1 + 1)\<rparr>"
  proof (rule for_range_rule [where I = "\<lambda>n s. s = fm\<lparr>elem := ?F n\<rparr>"])
    show "0 \<le> ?nt - 1 + 1" by simp
    have "?F 0 = elem fm" by (auto simp: fun_eq_iff)
    then show "fm = fm\<lparr>elem := ?F 0\<rparr>" by simp
    show "\<exists>s'. step12_body L f phis m n s = Some s' \<and> s' = fm\<lparr>elem := ?F (n + 1)\<rparr>"
      if "0 \<le> n" "n \<le> ?nt - 1" "s = fm\<lparr>elem := ?F n\<rparr>" for n s
    proof -
      have b: "step12_body L f phis m n s
         = Some (s\<lparr>elem := (if n > 0
          then (elem s)((L + m, L + n) := fm_value L f phis m n,
                         (L + m, L - n) := fm_value L f phis m (- n))
          else (elem s)((L + m, L + n) := fm_value L f phis m n))\<rparr>)"
        using that assms by (intro step12_body_eq) simp_all
      have "(if n > 0
          then (?F n)((L + m, L + n) := fm_value L f phis m n,
                      (L + m, L - n) := fm_value L f phis m (- n))
          else (?F n)((L + m, L + n) := fm_value L f phis m n)) = ?F (n + 1)"
      proof (rule ext)
        fix x :: "int \<times> int"
        obtain i j where x: "x = (i, j)" by (cases x)
        have c: "\<bar>j - L\<bar> < n + 1 \<longleftrightarrow> \<bar>j - L\<bar> < n \<or> j = L + n \<or> j = L - n"
          using that(1) by linarith
        have d: "j = L + n \<Longrightarrow> j - L = n" "j = L - n \<Longrightarrow> j - L = - n" by simp_all
        show "(if n > 0
          then (?F n)((L + m, L + n) := fm_value L f phis m n,
                      (L + m, L - n) := fm_value L f phis m (- n))
          else (?F n)((L + m, L + n) := fm_value L f phis m n)) x = ?F (n + 1) x"
          unfolding x using that(1) c d by (cases "0 < n") auto
      qed
      then have "s\<lparr>elem := (if n > 0
          then (elem s)((L + m, L + n) := fm_value L f phis m n,
                         (L + m, L - n) := fm_value L f phis m (- n))
          else (elem s)((L + m, L + n) := fm_value L f phis m n))\<rparr> = fm\<lparr>elem := ?F (n + 1)\<rparr>"
        unfolding that(3) by (cases "0 < n") simp_all
      with b show ?thesis by simp
    qed
  qed
  then show ?thesis by simp
qed

lemma steps12_eq:
  assumes "0 < L" "int (length thetas) \<le> L"
    and "int (length thetas) \<le> nrows f" "int (length phis) \<le> ncols f"
    and "2 * L - 1 \<le> nrows fm" "L + int (length thetas) - 1 \<le> ncols fm"
  shows "steps12 L f thetas phis fm
     = Some (fm\<lparr>elem := (\<lambda>(i, j).
          if - L + 1 \<le> i - L \<and> i - L \<le> L - 1 \<and> \<bar>j - L\<bar> < int (length thetas)
          then fm_value L f phis (i - L) (j - L) else elem fm (i, j))\<rparr>)"
  unfolding steps12_def
proof (rule fill_rows [where R = "nrows fm" and C = "ncols fm"
      and P = "\<lambda>j. \<bar>j - L\<bar> < int (length thetas)" and g = "\<lambda>m j. fm_value L f phis m (j - L)"])
  show "- L + 1 \<le> L - 1 + 1" using assms(1) by simp
  show "for_range 0 (int (length thetas) - 1) (step12_body L f phis m) A
     = Some (A\<lparr>elem := (\<lambda>(i, j). if i = L + m \<and> \<bar>j - L\<bar> < int (length thetas)
                                     then fm_value L f phis m (j - L) else elem A (i, j))\<rparr>)"
    if "- L + 1 \<le> m" "m \<le> L - 1" "nrows A = nrows fm" "ncols A = ncols fm" for m A
    using that assms by (intro step12_row [where R = "nrows fm" and C = "ncols fm"]) simp_all
qed simp_all

lemma step3_sum_eq:
  assumes "1 \<le> L + m" "L + m \<le> nrows fm" "int (length thetasExt) \<le> ncols fm"
  shows "step3_sum L fm thetasExt m mp
     = Some (\<Sum>t\<in>{0..int (length thetasExt) - 1}.
        elem fm (L + m, t + 1) * exp (- \<i> * of_int mp * of_real (thetasExt ! nat t)))"
proof -
  have "step3_sum L fm thetasExt m mp
     = Some (0 + (\<Sum>t\<in>{0..int (length thetasExt) - 1}.
        elem fm (L + m, t + 1) * exp (- \<i> * of_int mp * of_real (thetasExt ! nat t))))"
    unfolding step3_sum_def
  proof (rule for_range_sum)
    show "0 \<le> int (length thetasExt) - 1 + 1" by simp
    show "do { theta \<leftarrow> vget thetasExt (t + 1); x \<leftarrow> mget fm (L + m) (t + 1);
               Some (s + x * exp (- \<i> * of_int mp * of_real theta)) }
        = Some (s + elem fm (L + m, t + 1) * exp (- \<i> * of_int mp * of_real (thetasExt ! nat t)))"
      if "0 \<le> t" "t \<le> int (length thetasExt) - 1" for t s
      using that assms by (simp add: vget_inside mget_inside)
  qed
  then show ?thesis by simp
qed

lemma step3_eq:
  assumes "0 < L" "2 * L - 1 \<le> nrows fm" "int (length thetasExt) \<le> ncols fm"
    and "2 * L - 1 \<le> nrows fmm" "2 * L - 1 \<le> ncols fmm"
  shows "step3 L fm thetasExt fmm
     = Some (fmm\<lparr>elem := (\<lambda>(i, j).
          if - L + 1 \<le> i - L \<and> i - L \<le> L - 1 \<and> (- L + 1 \<le> j - L \<and> j - L \<le> L - 1)
          then fmm_value L fm thetasExt (i - L) (j - L) else elem fmm (i, j))\<rparr>)"
  unfolding step3_def
proof (rule fill_rows [where R = "nrows fmm" and C = "ncols fmm"
      and P = "\<lambda>j. - L + 1 \<le> j - L \<and> j - L \<le> L - 1"
      and g = "\<lambda>m j. fmm_value L fm thetasExt m (j - L)"])
  show "- L + 1 \<le> L - 1 + 1" using assms(1) by simp
  show "for_range (- L + 1) (L - 1)
          (\<lambda>mp fmm. do { sum \<leftarrow> step3_sum L fm thetasExt m mp;
                          mset fmm (L + m) (L + mp) (sum / of_int (2 * L - 1)) }) A
     = Some (A\<lparr>elem := (\<lambda>(i, j). if i = L + m \<and> (- L + 1 \<le> j - L \<and> j - L \<le> L - 1)
                      then fmm_value L fm thetasExt m (j - L) else elem A (i, j))\<rparr>)"
    if m: "- L + 1 \<le> m" "m \<le> L - 1" and A: "nrows A = nrows fmm" "ncols A = ncols fmm" for m A
  proof (rule fill_row [where R = "nrows fmm" and C = "ncols fmm"])
    show "- L + 1 \<le> L - 1 + 1" using assms(1) by simp
    show "do { sum \<leftarrow> step3_sum L fm thetasExt m mp;
               mset B (L + m) (L + mp) (sum / of_int (2 * L - 1)) }
        = Some (B\<lparr>elem := (elem B)((L + m, L + mp) := fmm_value L fm thetasExt m mp)\<rparr>)"
      if "- L + 1 \<le> mp" "mp \<le> L - 1" "nrows B = nrows fmm" "ncols B = ncols fmm" for mp B
    proof -
      have "step3_sum L fm thetasExt m mp
         = Some (\<Sum>t\<in>{0..int (length thetasExt) - 1}.
            elem fm (L + m, t + 1) * exp (- \<i> * of_int mp * of_real (thetasExt ! nat t)))"
        using m assms by (intro step3_sum_eq) simp_all
      moreover have "mset B (L + m) (L + mp) v
         = Some (B\<lparr>elem := (elem B)((L + m, L + mp) := v)\<rparr>)" for v
        using m that assms by (intro mset_inside) simp_all
      ultimately show ?thesis by (simp add: fmm_value_def)
    qed
  qed (use A in simp_all)
qed simp_all

lemma step4_sum_eq:
  assumes "0 < L" "1 \<le> L + m" "L + m \<le> nrows fmm" "2 * L - 1 \<le> ncols fmm"
  shows "step4_sum L fmm m mp
     = Some (\<Sum>mpp\<in>{- L + 1..L - 1}. elem fmm (L + m, L + mpp) * step4_w (mpp - mp))"
proof -
  have "step4_sum L fmm m mp
     = Some (0 + (\<Sum>mpp\<in>{- L + 1..L - 1}. elem fmm (L + m, L + mpp) * step4_w (mpp - mp)))"
    unfolding step4_sum_def
  proof (rule for_range_sum)
    show "- L + 1 \<le> L - 1 + 1" using assms(1) by simp
    show "do { x \<leftarrow> mget fmm (L + m) (L + mpp); Some (s + x * step4_w (mpp - mp)) }
        = Some (s + elem fmm (L + m, L + mpp) * step4_w (mpp - mp))"
      if "- L + 1 \<le> mpp" "mpp \<le> L - 1" for mpp s
      using that assms by (simp add: mget_inside)
  qed
  then show ?thesis by simp
qed

lemma step4_eq:
  assumes "0 < L" "2 * L - 1 \<le> nrows fmm" "2 * L - 1 \<le> ncols fmm"
    and "2 * L - 1 \<le> nrows gmm" "2 * L - 1 \<le> ncols gmm"
  shows "step4 L fmm gmm
     = Some (gmm\<lparr>elem := (\<lambda>(i, j).
          if - L + 1 \<le> i - L \<and> i - L \<le> L - 1 \<and> (- L + 1 \<le> j - L \<and> j - L \<le> L - 1)
          then gmm_value L fmm (i - L) (j - L) else elem gmm (i, j))\<rparr>)"
  unfolding step4_def
proof (rule fill_rows [where R = "nrows gmm" and C = "ncols gmm"
      and P = "\<lambda>j. - L + 1 \<le> j - L \<and> j - L \<le> L - 1"
      and g = "\<lambda>m j. gmm_value L fmm m (j - L)"])
  show "- L + 1 \<le> L - 1 + 1" using assms(1) by simp
  show "for_range (- L + 1) (L - 1)
          (\<lambda>mp gmm. do { sum \<leftarrow> step4_sum L fmm m mp;
                          mset gmm (L + m) (L + mp) (sum * 2 * of_real pi) }) A
     = Some (A\<lparr>elem := (\<lambda>(i, j). if i = L + m \<and> (- L + 1 \<le> j - L \<and> j - L \<le> L - 1)
                      then gmm_value L fmm m (j - L) else elem A (i, j))\<rparr>)"
    if m: "- L + 1 \<le> m" "m \<le> L - 1" and A: "nrows A = nrows gmm" "ncols A = ncols gmm" for m A
  proof (rule fill_row [where R = "nrows gmm" and C = "ncols gmm"])
    show "- L + 1 \<le> L - 1 + 1" using assms(1) by simp
    show "do { sum \<leftarrow> step4_sum L fmm m mp;
               mset B (L + m) (L + mp) (sum * 2 * of_real pi) }
        = Some (B\<lparr>elem := (elem B)((L + m, L + mp) := gmm_value L fmm m mp)\<rparr>)"
      if "- L + 1 \<le> mp" "mp \<le> L - 1" "nrows B = nrows gmm" "ncols B = ncols gmm" for mp B
    proof -
      have "step4_sum L fmm m mp
         = Some (\<Sum>mpp\<in>{- L + 1..L - 1}. elem fmm (L + m, L + mpp) * step4_w (mpp - mp))"
        using m assms by (intro step4_sum_eq) simp_all
      moreover have "mset B (L + m) (L + mp) v
         = Some (B\<lparr>elem := (elem B)((L + m, L + mp) := v)\<rparr>)" for v
        using m that assms by (intro mset_inside) simp_all
      ultimately show ?thesis by (simp add: gmm_value_def)
    qed
  qed (use A in simp_all)
qed simp_all

lemma spec_weight_step4_w: "spec_weight d = step4_w d * 2 * of_real pi"
  by (simp add: spec_weight_def step4_w_def even_iff_mod_2_eq_zero)

lemma zeros_dims: "0 \<le> r \<Longrightarrow> nrows (zeros r c) = r" "0 \<le> c \<Longrightarrow> ncols (zeros r c) = c"
  by (simp_all add: zeros_def)

text \<open>
  \<^bold>\<open>Claim C7\<close>. In steps 1 and 2 of the fast forward transform, for every order
  \<open>m\<close> in \<open>-(L-1)..L-1\<close> and colatitude index \<open>t\<close> in \<open>0..L-1\<close>, \<open>fm(L+m, L+t)\<close> is the
  sum over the \<open>2L-1\<close> longitude samples of \<open>f(t+1,p) exp(-i m phis(p))\<close> divided by \<open>2L-1\<close>,
  and for \<open>t > 0\<close> the reflected entry \<open>fm(L+m, L-t)\<close> is \<open>(-1)\<^sup>m\<close> times \<open>fm(L+m, L+t)\<close>.
\<close>

theorem steps12_coefficients:
  assumes "0 < L" and "nrows f = L" and "ncols f = 2 * L - 1"
    and "int (length thetas) = L" and "int (length phis) = 2 * L - 1"
  shows "\<exists>fm. steps12 L f thetas phis (zeros (2 * L - 1) (2 * L - 1)) = Some fm \<and>
     (\<forall>m\<in>{- (L - 1)..L - 1}. \<forall>t\<in>{0..L - 1}.
        elem fm (L + m, L + t)
          = (\<Sum>p\<in>{1..2 * L - 1}.
               elem f (t + 1, p) * exp (- \<i> * of_int m * of_real (phis ! nat (p - 1))))
            / of_int (2 * L - 1)
        \<and> (0 < t \<longrightarrow> elem fm (L + m, L - t) = (- 1) powi m * elem fm (L + m, L + t)))"
proof -
  let ?fm0 = "zeros (2 * L - 1) (2 * L - 1) :: complex marray"
  have d: "nrows ?fm0 = 2 * L - 1" "ncols ?fm0 = 2 * L - 1"
    using assms(1) by (simp_all add: zeros_dims)
  have e: "steps12 L f thetas phis ?fm0
     = Some (?fm0\<lparr>elem := (\<lambda>(i, j).
          if - L + 1 \<le> i - L \<and> i - L \<le> L - 1 \<and> \<bar>j - L\<bar> < int (length thetas)
          then fm_value L f phis (i - L) (j - L) else elem ?fm0 (i, j))\<rparr>)"
    using assms d by (intro steps12_eq) simp_all
  show ?thesis
    unfolding e using assms(4,5)
    by (auto simp: fm_value_def dft_phi_def)
qed

text \<open>
  \<^bold>\<open>Claim C3\<close>. Step 4 of the fast forward transform leaves in \<open>gmm(L+m, L+m')\<close> the
  sum over \<open>m''\<close> of \<open>fmm(L+m, L+m'')\<close> times the weight of the difference \<open>d = m'' - m'\<close>,
  which is \<open>2\<pi>\<close> times \<open>i\<pi>d/2\<close> if \<open>|d| = 1\<close>, \<open>2/(1 - d\<^sup>2)\<close> if \<open>d\<close> is even and \<open>0\<close>
  if \<open>d\<close> is odd with \<open>|d| \<noteq> 1\<close>.
\<close>

theorem step4_deconvolution:
  assumes "0 < L" and "nrows fmm = 2 * L - 1" and "ncols fmm = 2 * L - 1"
  shows "\<exists>gmm. step4 L fmm (zeros (2 * L - 1) (2 * L - 1)) = Some gmm \<and>
     (\<forall>m\<in>{- (L - 1)..L - 1}. \<forall>mp\<in>{- (L - 1)..L - 1}.
        elem gmm (L + m, L + mp)
          = (\<Sum>mpp\<in>{- (L - 1)..L - 1}. elem fmm (L + m, L + mpp) * spec_weight (mpp - mp)))"
proof -
  let ?g0 = "zeros (2 * L - 1) (2 * L - 1) :: complex marray"
  have d: "nrows ?g0 = 2 * L - 1" "ncols ?g0 = 2 * L - 1"
    using assms(1) by (simp_all add: zeros_dims)
  have e: "step4 L fmm ?g0
     = Some (?g0\<lparr>elem := (\<lambda>(i, j).
          if - L + 1 \<le> i - L \<and> i - L \<le> L - 1 \<and> (- L + 1 \<le> j - L \<and> j - L \<le> L - 1)
          then gmm_value L fmm (i - L) (j - L) else elem ?g0 (i, j))\<rparr>)"
    using assms d by (intro step4_eq) simp_all
  have s: "gmm_value L fmm m mp
      = (\<Sum>mpp\<in>{- (L - 1)..L - 1}. elem fmm (L + m, L + mpp) * spec_weight (mpp - mp))" for m mp
    by (simp add: gmm_value_def spec_weight_step4_w sum_distrib_right mult.assoc)
  show ?thesis
    unfolding e by (auto simp: s)
qed

subsection \<open>The direct inverse transform and step 5 of the forward transform\<close>

lemma sq_succ_le:
  assumes "0 \<le> (l::int)" "l < L"
  shows "l\<^sup>2 + 2 * l + 1 \<le> L\<^sup>2"
proof -
  have "(l + 1)\<^sup>2 \<le> L\<^sup>2" using assms by (intro power_mono) simp_all
  then show ?thesis by (simp add: power2_eq_square algebra_simps)
qed

lemma dl_upto_step:
  assumes "0 \<le> l"
  shows "ssht_dl (if l = 0 then zeros (2 * L - 1) (2 * L - 1) else dl_upto ssht_dl L theta (nat (l - 1)))
           L l theta = dl_upto ssht_dl L theta (nat l)"
proof (cases "l = 0")
  case True
  then show ?thesis by simp
next
  case False
  with assms have "nat l = Suc (nat (l - 1))" by simp
  moreover have "int (Suc (nat (l - 1))) = l" using False assms by simp
  ultimately show ?thesis using False by (simp del: of_nat_Suc)
qed

lemma inverse_direct_inner:
  assumes "0 \<le> l" "l < L" "int (length flm) = L\<^sup>2" "2 * L - 1 \<le> nrows dl" "L \<le> ncols dl"
  shows "for_range (- l) l (inverse_direct_body L flm dl phi l) (sum0, l\<^sup>2 + 1)
     = Some (sum0 + (\<Sum>m\<in>{- l..l}.
                flm ! nat (l\<^sup>2 + l + m) * of_real (sqrt ((2 * of_int l + 1) / (4 * pi)))
                  * of_real (elem dl (m + L, L)) * exp (\<i> * of_int m * of_real phi)),
             (l + 1)\<^sup>2 + 1)"
proof -
  let ?T = "\<lambda>m. flm ! nat (l\<^sup>2 + l + m) * of_real (sqrt ((2 * of_int l + 1) / (4 * pi)))
                  * of_real (elem dl (m + L, L)) * exp (\<i> * of_int m * of_real phi)"
  note q = sq_succ_le [OF assms(1,2)]
  have "\<exists>s'. for_range (- l) l (inverse_direct_body L flm dl phi l) (sum0, l\<^sup>2 + 1) = Some s'
          \<and> s' = (sum0 + (\<Sum>m\<in>{- l..<l + 1}. ?T m), l\<^sup>2 + l + (l + 1) + 1)"
  proof (rule for_range_rule
      [where I = "\<lambda>n s. s = (sum0 + (\<Sum>m\<in>{- l..<n}. ?T m), l\<^sup>2 + l + n + 1)"])
    show "- l \<le> l + 1" using assms(1) by simp
    show "(sum0, l\<^sup>2 + 1) = (sum0 + (\<Sum>m\<in>{- l..<- l}. ?T m), l\<^sup>2 + l + - l + 1)" by simp
    show "\<exists>s'. inverse_direct_body L flm dl phi l n s = Some s'
            \<and> s' = (sum0 + (\<Sum>m\<in>{- l..<n + 1}. ?T m), l\<^sup>2 + l + (n + 1) + 1)"
      if n: "- l \<le> n" "n \<le> l" and s: "s = (sum0 + (\<Sum>m\<in>{- l..<n}. ?T m), l\<^sup>2 + l + n + 1)"
      for n s
    proof -
      have p: "0 \<le> l\<^sup>2" by simp
      have "1 \<le> l\<^sup>2 + l + n + 1" "l\<^sup>2 + l + n + 1 \<le> int (length flm)"
        using p n q assms(3) by linarith+
      then have "vget flm (l\<^sup>2 + l + n + 1) = Some (flm ! nat (l\<^sup>2 + l + n))"
        using vget_inside [of "l\<^sup>2 + l + n + 1" flm] by simp
      moreover have "mget dl (n + L) L = Some (elem dl (n + L, L))"
        using n assms by (intro mget_inside) simp_all
      ultimately show ?thesis
        unfolding s by (simp add: inverse_direct_body_def sum_int_upto_Suc [OF n(1)] add.assoc)
    qed
  qed
  moreover have "{- l..<l + 1} = {- l..l}" by auto
  moreover have "l\<^sup>2 + l + (l + 1) + 1 = (l + 1)\<^sup>2 + 1"
    by (simp add: power2_eq_square algebra_simps)
  ultimately show ?thesis by simp
qed

lemma inverse_direct_point_eq:
  assumes "0 < L" "int (length flm) = L\<^sup>2"
    and "\<And>d l. 2 * L - 1 \<le> nrows (ssht_dl d L l theta) \<and> L \<le> ncols (ssht_dl d L l theta)"
  shows "inverse_direct_point ssht_dl L flm theta phi
     = Some (\<Sum>l\<in>{0..L - 1}. \<Sum>m\<in>{- l..l}. synth_term ssht_dl L flm theta phi l m,
             L\<^sup>2 + 1, dl_upto ssht_dl L theta (nat (L - 1)))"
proof -
  let ?S = "\<lambda>l. \<Sum>m\<in>{- l..l}. synth_term ssht_dl L flm theta phi l m"
  let ?D = "\<lambda>l. if l = 0 then zeros (2 * L - 1) (2 * L - 1)
                  else dl_upto ssht_dl L theta (nat (l - 1))"
  let ?body = "\<lambda>l (sum, lmindex, dl). do {
          let dl = ssht_dl dl L l theta;
          (sum, lmindex) \<leftarrow>
            for_range (- l) l (inverse_direct_body L flm dl phi l) (sum, lmindex);
          Some (sum, lmindex, dl) }"
  have "\<exists>s'. for_range 0 (L - 1) ?body (0, 1, zeros (2 * L - 1) (2 * L - 1)) = Some s'
          \<and> s' = ((\<Sum>l\<in>{0..<L - 1 + 1}. ?S l), (L - 1 + 1)\<^sup>2 + 1, ?D (L - 1 + 1))"
  proof (rule for_range_rule
      [where I = "\<lambda>n s. s = ((\<Sum>l\<in>{0..<n}. ?S l), n\<^sup>2 + 1, ?D n)"])
    show "0 \<le> L - 1 + 1" using assms(1) by simp
    show "(0, 1, zeros (2 * L - 1) (2 * L - 1)) = ((\<Sum>l\<in>{0..<0}. ?S l), (0::int)\<^sup>2 + 1, ?D 0)"
      by simp
    show "\<exists>s'. ?body n s = Some s'
            \<and> s' = ((\<Sum>l\<in>{0..<n + 1}. ?S l), (n + 1)\<^sup>2 + 1, ?D (n + 1))"
      if n: "0 \<le> n" "n \<le> L - 1" and s: "s = ((\<Sum>l\<in>{0..<n}. ?S l), n\<^sup>2 + 1, ?D n)" for n s
    proof -
      have d: "ssht_dl (?D n) L n theta = dl_upto ssht_dl L theta (nat n)"
        by (rule dl_upto_step [OF n(1)])
      have nl: "n < L" using n by simp
      have dims: "2 * L - 1 \<le> nrows (dl_upto ssht_dl L theta (nat n))"
        "L \<le> ncols (dl_upto ssht_dl L theta (nat n))"
        using assms(3) [of "?D n" n] unfolding d by simp_all
      have i: "for_range (- n) n
            (inverse_direct_body L flm (dl_upto ssht_dl L theta (nat n)) phi n)
            (\<Sum>l\<in>{0..<n}. ?S l, n\<^sup>2 + 1)
          = Some ((\<Sum>l\<in>{0..<n}. ?S l) + ?S n, (n + 1)\<^sup>2 + 1)"
        using inverse_direct_inner [OF n(1) nl assms(2) dims, of phi "\<Sum>l\<in>{0..<n}. ?S l"]
        by (simp add: synth_term_def)
      have D': "?D (n + 1) = dl_upto ssht_dl L theta (nat n)" using n by simp
      show ?thesis
        unfolding s D' using n
        by (simp add: d i Let_def sum_int_upto_Suc del: dl_upto.simps)
    qed
  qed
  moreover have "{0..<L - 1 + 1} = {0..L - 1}" by auto
  moreover have "?D (L - 1 + 1) = dl_upto ssht_dl L theta (nat (L - 1))" using assms(1) by simp
  ultimately show ?thesis by (simp add: inverse_direct_point_def)
qed

lemma elem_zeros: "elem (zeros r c) x = 0"
  by (simp add: zeros_def)

lemma inverse_direct_eq:
  assumes "0 < L" "int (length flm) = L\<^sup>2" "ssht_sampling L = (thetas, phis)"
    and "\<And>d l theta. 2 * L - 1 \<le> nrows (ssht_dl d L l theta) \<and> L \<le> ncols (ssht_dl d L l theta)"
  shows "inverse_direct ssht_sampling ssht_dl L flm
     = Some ((zeros (int (length thetas)) (int (length phis)))\<lparr>elem := (\<lambda>(j, k).
          if 1 \<le> j \<and> j \<le> int (length thetas) \<and> (1 \<le> k \<and> k \<le> int (length phis))
          then synth_value ssht_dl L flm (thetas ! nat (j - 1)) (phis ! nat (k - 1))
          else 0)\<rparr>)"
proof -
  let ?nt = "int (length thetas)" and ?np = "int (length phis)"
  let ?f0 = "zeros ?nt ?np :: complex marray"
  let ?V = "\<lambda>j k. synth_value ssht_dl L flm (thetas ! nat (j - 1)) (phis ! nat (k - 1))"
  let ?inner = "\<lambda>theta k f. do {
                  phi \<leftarrow> vget phis k;
                  (sum, lmindex, dl) \<leftarrow> inverse_direct_point ssht_dl L flm theta phi;
                  mset f j k sum }"
  have d0: "nrows ?f0 = ?nt" "ncols ?f0 = ?np" by (simp_all add: zeros_def)
  have "for_range 1 ?nt
          (\<lambda>j f. do {
             theta \<leftarrow> vget thetas j;
             for_range 1 ?np
               (\<lambda>k f. do {
                  phi \<leftarrow> vget phis k;
                  (sum, lmindex, dl) \<leftarrow> inverse_direct_point ssht_dl L flm theta phi;
                  mset f j k sum })
               f }) ?f0
     = Some (?f0\<lparr>elem := (\<lambda>(i, j). if 1 \<le> i - 0 \<and> i - 0 \<le> ?nt \<and> (1 \<le> j - 0 \<and> j - 0 \<le> ?np)
                                 then ?V (i - 0) (j - 0) else elem ?f0 (i, j))\<rparr>)"
  proof (rule fill_rows [where R = ?nt and C = ?np and K = 0
        and P = "\<lambda>j. 1 \<le> j - 0 \<and> j - 0 \<le> ?np" and g = "\<lambda>i j. ?V i (j - 0)"])
    show "1 \<le> ?nt + 1" by simp
    show "do { theta \<leftarrow> vget thetas j;
               for_range 1 ?np
                 (\<lambda>k f. do {
                    phi \<leftarrow> vget phis k;
                    (sum, lmindex, dl) \<leftarrow> inverse_direct_point ssht_dl L flm theta phi;
                    mset f j k sum })
                 A }
        = Some (A\<lparr>elem := (\<lambda>(i, k). if i = 0 + j \<and> (1 \<le> k - 0 \<and> k - 0 \<le> ?np)
                                   then ?V j (k - 0) else elem A (i, k))\<rparr>)"
      if j: "1 \<le> j" "j \<le> ?nt" and A: "nrows A = ?nt" "ncols A = ?np" for j A
    proof -
      have t: "vget thetas j = Some (thetas ! nat (j - 1))" using j by (simp add: vget_inside)
      have "for_range 1 ?np
                 (\<lambda>k f. do {
                    phi \<leftarrow> vget phis k;
                    (sum, lmindex, dl) \<leftarrow>
                      inverse_direct_point ssht_dl L flm (thetas ! nat (j - 1)) phi;
                    mset f j k sum })
                 A
         = Some (A\<lparr>elem := (\<lambda>(i, k). if i = j \<and> 1 \<le> k - 0 \<and> k - 0 \<le> ?np
                                   then ?V j (k - 0) else elem A (i, k))\<rparr>)"
      proof (rule fill_row [where R = ?nt and C = ?np and K = 0])
        show "1 \<le> ?np + 1" by simp
        show "do { phi \<leftarrow> vget phis k;
                   (sum, lmindex, dl) \<leftarrow>
                     inverse_direct_point ssht_dl L flm (thetas ! nat (j - 1)) phi;
                   mset B j k sum }
            = Some (B\<lparr>elem := (elem B)((j, 0 + k) := ?V j k)\<rparr>)"
          if k: "1 \<le> k" "k \<le> ?np" and B: "nrows B = ?nt" "ncols B = ?np" for k B
        proof -
          have "vget phis k = Some (phis ! nat (k - 1))" using k by (simp add: vget_inside)
          moreover have "inverse_direct_point ssht_dl L flm (thetas ! nat (j - 1)) (phis ! nat (k - 1))
             = Some (?V j k, L\<^sup>2 + 1, dl_upto ssht_dl L (thetas ! nat (j - 1)) (nat (L - 1)))"
            unfolding synth_value_def
            by (rule inverse_direct_point_eq [OF assms(1,2)]) (rule assms(4))
          moreover have "mset B j k v = Some (B\<lparr>elem := (elem B)((j, k) := v)\<rparr>)" for v
            using j k B by (intro mset_inside) simp_all
          ultimately show ?thesis by simp
        qed
      qed (use A in simp_all)
      then show ?thesis by (simp add: t)
    qed
  qed (simp_all add: d0)
  moreover have "(\<lambda>(i, j). if 1 \<le> i - 0 \<and> i - 0 \<le> ?nt \<and> (1 \<le> j - 0 \<and> j - 0 \<le> ?np)
                                 then ?V (i - 0) (j - 0) else elem ?f0 (i, j))
      = (\<lambda>(j, k).
          if 1 \<le> j \<and> j \<le> int (length thetas) \<and> (1 \<le> k \<and> k \<le> int (length phis))
          then synth_value ssht_dl L flm (thetas ! nat (j - 1)) (phis ! nat (k - 1))
          else 0)"
    by (auto simp: fun_eq_iff elem_zeros)
  ultimately show ?thesis
    using assms(2) by (simp add: inverse_direct_def assms(3))
qed

text \<open>
  \<^bold>\<open>Claim C2\<close>. For a positive band-limit \<open>L\<close> and a coefficient vector of length
  \<open>L\<^sup>2\<close>, \<open>inverse_direct\<close> returns at each grid point \<open>(thetas(j), phis(k))\<close> the sum
  over \<open>l = 0..L-1\<close> and \<open>m = -l..l\<close> of
  \<open>flm(l,m) sqrt((2l+1)/(4\<pi>)) dl(m+L, L) exp(i m phis(k))\<close>, where \<open>dl\<close> is the Wigner
  matrix obtained for this grid point by running the recursion from degree 0 up to \<open>l\<close>
  at the angle \<open>thetas(j)\<close>; the coefficient \<open>(l,m)\<close> is entry \<open>l\<^sup>2 + l + m\<close> of the
  vector, counted from 0.
\<close>

theorem inverse_direct_synthesis:
  assumes "0 < L" and "int (length flm) = L\<^sup>2" and "ssht_sampling L = (thetas, phis)"
    and "\<And>d l theta. nrows (ssht_dl d L l theta) = 2 * L - 1 \<and> ncols (ssht_dl d L l theta) = 2 * L - 1"
  shows "\<exists>f. inverse_direct ssht_sampling ssht_dl L flm = Some f
      \<and> nrows f = int (length thetas) \<and> ncols f = int (length phis)
      \<and> (\<forall>j\<in>{1..int (length thetas)}. \<forall>k\<in>{1..int (length phis)}.
           elem f (j, k)
             = (\<Sum>l\<in>{0..L - 1}. \<Sum>m\<in>{- l..l}.
                  flm ! nat (l\<^sup>2 + l + m) * of_real (sqrt ((2 * of_int l + 1) / (4 * pi)))
                    * of_real (elem (dl_upto ssht_dl L (thetas ! nat (j - 1)) (nat l)) (m + L, L))
                    * exp (\<i> * of_int m * of_real (phis ! nat (k - 1)))))"
proof -
  have "2 * L - 1 \<le> nrows (ssht_dl d L l theta) \<and> L \<le> ncols (ssht_dl d L l theta)" for d l theta
    using assms(1) assms(4) [of d l theta] by simp
  then have e: "inverse_direct ssht_sampling ssht_dl L flm
     = Some ((zeros (int (length thetas)) (int (length phis)))\<lparr>elem := (\<lambda>(j, k).
          if 1 \<le> j \<and> j \<le> int (length thetas) \<and> (1 \<le> k \<and> k \<le> int (length phis))
          then synth_value ssht_dl L flm (thetas ! nat (j - 1)) (phis ! nat (k - 1))
          else 0)\<rparr>)"
    by (intro inverse_direct_eq assms(1-3))
  show ?thesis
    unfolding e by (auto simp: synth_value_def synth_term_def zeros_dims)
qed

lemma step5_sum_eq:
  assumes "0 < L" "2 * L - 1 \<le> nrows dl" "2 * L - 1 \<le> ncols dl"
    and "2 * L - 1 \<le> nrows gmm" "2 * L - 1 \<le> ncols gmm" "- L + 1 \<le> m" "m \<le> L - 1"
  shows "step5_sum L dl gmm m
     = Some (\<Sum>mp\<in>{- L + 1..L - 1}.
        of_real (elem dl (L + mp, L + m)) * of_real (elem dl (L + mp, L))
          * elem gmm (L + m, L + mp))"
proof -
  have "step5_sum L dl gmm m
     = Some (0 + (\<Sum>mp\<in>{- L + 1..L - 1}.
        of_real (elem dl (L + mp, L + m)) * of_real (elem dl (L + mp, L))
          * elem gmm (L + m, L + mp)))"
    unfolding step5_sum_def
  proof (rule for_range_sum)
    show "- L + 1 \<le> L - 1 + 1" using assms(1) by simp
    show "do { a \<leftarrow> mget dl (L + mp) (L + m); b \<leftarrow> mget dl (L + mp) L;
               g \<leftarrow> mget gmm (L + m) (L + mp);
               Some (s + of_real a * of_real b * g) }
        = Some (s + of_real (elem dl (L + mp, L + m)) * of_real (elem dl (L + mp, L))
                      * elem gmm (L + m, L + mp))"
      if "- L + 1 \<le> mp" "mp \<le> L - 1" for mp s
      using that assms by (simp add: mget_inside)
  qed
  then show ?thesis by simp
qed

lemma vset_inside:
  "1 \<le> k \<Longrightarrow> k \<le> int (length v) \<Longrightarrow> vset v k x = Some (v[nat (k - 1) := x])"
  by (simp add: vset_def)

text \<open>The loop over \<open>m\<close> of step 5, for one degree.\<close>

lemma step5_inner:
  assumes "0 \<le> l" "l < L" "int (length v0) = L\<^sup>2"
    and "2 * L - 1 \<le> nrows dl" "2 * L - 1 \<le> ncols dl"
    and "2 * L - 1 \<le> nrows gmm" "2 * L - 1 \<le> ncols gmm"
  shows "\<exists>v. for_range (- l) l (step5_body L dl gmm l) (l\<^sup>2 + 1, v0) = Some ((l + 1)\<^sup>2 + 1, v)
     \<and> length v = length v0
     \<and> (\<forall>m. - l \<le> m \<and> m \<le> l \<longrightarrow> v ! nat (l\<^sup>2 + l + m)
           = (\<Sum>mp\<in>{- L + 1..L - 1}.
                of_real (elem dl (L + mp, L + m)) * of_real (elem dl (L + mp, L))
                  * elem gmm (L + m, L + mp))
             * \<i> powi m * of_real (sqrt ((2 * of_int l + 1) / (4 * pi))))
     \<and> (\<forall>i. int i < l\<^sup>2 \<longrightarrow> v ! i = v0 ! i)"
proof -
  let ?val = "\<lambda>m. (\<Sum>mp\<in>{- L + 1..L - 1}.
                of_real (elem dl (L + mp, L + m)) * of_real (elem dl (L + mp, L))
                  * elem gmm (L + m, L + mp))
             * \<i> powi m * of_real (sqrt ((2 * of_int l + 1) / (4 * pi)))"
  let ?I = "\<lambda>n s. \<exists>v. s = (l\<^sup>2 + l + n + 1, v) \<and> length v = length v0
      \<and> (\<forall>m. - l \<le> m \<and> m < n \<longrightarrow> v ! nat (l\<^sup>2 + l + m) = ?val m)
      \<and> (\<forall>i. int i < l\<^sup>2 \<longrightarrow> v ! i = v0 ! i)"
  note q = sq_succ_le [OF assms(1,2)]
  have p: "0 \<le> l\<^sup>2" by simp
  have L0: "0 < L" using assms(1,2) by simp
  have "\<exists>s'. for_range (- l) l (step5_body L dl gmm l) (l\<^sup>2 + 1, v0) = Some s' \<and> ?I (l + 1) s'"
  proof (rule for_range_rule [where I = ?I])
    show "- l \<le> l + 1" using assms(1) by simp
    show "?I (- l) (l\<^sup>2 + 1, v0)" by (rule exI [of _ v0]) auto
    show "\<exists>s'. step5_body L dl gmm l n s = Some s' \<and> ?I (n + 1) s'"
      if n: "- l \<le> n" "n \<le> l" and I: "?I n s" for n s
    proof -
      from I obtain v where s: "s = (l\<^sup>2 + l + n + 1, v)" and len: "length v = length v0"
        and vals: "\<And>m. - l \<le> m \<Longrightarrow> m < n \<Longrightarrow> v ! nat (l\<^sup>2 + l + m) = ?val m"
        and frame: "\<And>i. int i < l\<^sup>2 \<Longrightarrow> v ! i = v0 ! i"
        by blast
      have r: "1 \<le> l\<^sup>2 + l + n + 1" "l\<^sup>2 + l + n + 1 \<le> int (length v)"
        using p n q assms(3) len by linarith+
      have m: "- L + 1 \<le> n" "n \<le> L - 1" using n assms(2) by linarith+
      have b: "step5_body L dl gmm l n s
          = Some (l\<^sup>2 + l + (n + 1) + 1, v[nat (l\<^sup>2 + l + n) := ?val n])"
        unfolding s using vset_inside [OF r]
        by (simp add: step5_body_def step5_sum_eq [OF L0 assms(4-7) m])
      have idx: "nat (l\<^sup>2 + l + n) < length v" using r by linarith
      have "v[nat (l\<^sup>2 + l + n) := ?val n] ! nat (l\<^sup>2 + l + m) = ?val m"
        if "- l \<le> m" "m < n + 1" for m
      proof (cases "m = n")
        case True
        then show ?thesis using idx by simp
      next
        case False
        then have "nat (l\<^sup>2 + l + m) \<noteq> nat (l\<^sup>2 + l + n)" using that p n by linarith
        then show ?thesis using vals [of m] that False by simp
      qed
      moreover have "v[nat (l\<^sup>2 + l + n) := ?val n] ! i = v0 ! i" if "int i < l\<^sup>2" for i
      proof -
        have "i \<noteq> nat (l\<^sup>2 + l + n)" using that n by linarith
        then show ?thesis using frame [OF that] by simp
      qed
      ultimately show ?thesis unfolding b using len by simp
    qed
  qed
  then obtain v where 1: "for_range (- l) l (step5_body L dl gmm l) (l\<^sup>2 + 1, v0)
        = Some (l\<^sup>2 + l + (l + 1) + 1, v)"
    and 2: "length v = length v0"
    and 3: "\<And>m. - l \<le> m \<Longrightarrow> m < l + 1 \<Longrightarrow> v ! nat (l\<^sup>2 + l + m) = ?val m"
    and 4: "\<And>i. int i < l\<^sup>2 \<Longrightarrow> v ! i = v0 ! i"
    by blast
  have e: "l\<^sup>2 + l + (l + 1) + 1 = (l + 1)\<^sup>2 + 1"
    by (simp add: power2_eq_square algebra_simps)
  show ?thesis
  proof (intro exI [of _ v] conjI allI impI)
    show "for_range (- l) l (step5_body L dl gmm l) (l\<^sup>2 + 1, v0) = Some ((l + 1)\<^sup>2 + 1, v)"
      using 1 unfolding e .
    show "length v = length v0" by (rule 2)
    show "v ! nat (l\<^sup>2 + l + m) = ?val m" if "- l \<le> m \<and> m \<le> l" for m
      using that by (intro 3) simp_all
    show "v ! i = v0 ! i" if "int i < l\<^sup>2" for i by (rule 4 [OF that])
  qed
qed

lemma step5_eq:
  assumes "0 < L" "2 * L - 1 \<le> nrows gmm" "2 * L - 1 \<le> ncols gmm" "int (length v0) = L\<^sup>2"
    and "\<And>d l theta. 2 * L - 1 \<le> nrows (ssht_dl d L l theta)
            \<and> 2 * L - 1 \<le> ncols (ssht_dl d L l theta)"
  shows "\<exists>flm. step5 ssht_dl L gmm (zeros (2 * L - 1) (2 * L - 1), 1, v0)
        = Some (dl_upto ssht_dl L (pi / 2) (nat (L - 1)), L\<^sup>2 + 1, flm)
     \<and> length flm = length v0
     \<and> (\<forall>l m. 0 \<le> l \<and> l < L \<and> - l \<le> m \<and> m \<le> l
           \<longrightarrow> flm ! nat (l\<^sup>2 + l + m) = flm_value ssht_dl L gmm l m)"
proof -
  let ?D = "\<lambda>l. if l = 0 then zeros (2 * L - 1) (2 * L - 1)
                  else dl_upto ssht_dl L (pi / 2) (nat (l - 1))"
  let ?body = "\<lambda>l (dl, lmi, flm). do {
          let dl = ssht_dl dl L l (pi / 2);
          (lmi, flm) \<leftarrow> for_range (- l) l (step5_body L dl gmm l) (lmi, flm);
          Some (dl, lmi, flm) }"
  let ?I = "\<lambda>n s. \<exists>v. s = (?D n, n\<^sup>2 + 1, v) \<and> length v = length v0
      \<and> (\<forall>l m. 0 \<le> l \<and> l < n \<and> - l \<le> m \<and> m \<le> l
            \<longrightarrow> v ! nat (l\<^sup>2 + l + m) = flm_value ssht_dl L gmm l m)"
  have "\<exists>s'. for_range 0 (L - 1) ?body (zeros (2 * L - 1) (2 * L - 1), 1, v0) = Some s'
          \<and> ?I (L - 1 + 1) s'"
  proof (rule for_range_rule [where I = ?I])
    show "0 \<le> L - 1 + 1" using assms(1) by simp
    show "?I 0 (zeros (2 * L - 1) (2 * L - 1), 1, v0)" by (rule exI [of _ v0]) auto
    show "\<exists>s'. ?body n s = Some s' \<and> ?I (n + 1) s'"
      if n: "0 \<le> n" "n \<le> L - 1" and I: "?I n s" for n s
    proof -
      from I obtain v where s: "s = (?D n, n\<^sup>2 + 1, v)" and len: "length v = length v0"
        and vals: "\<And>l m. 0 \<le> l \<Longrightarrow> l < n \<Longrightarrow> - l \<le> m \<Longrightarrow> m \<le> l
                      \<Longrightarrow> v ! nat (l\<^sup>2 + l + m) = flm_value ssht_dl L gmm l m"
        by blast
      have d: "ssht_dl (?D n) L n (pi / 2) = dl_upto ssht_dl L (pi / 2) (nat n)"
        by (rule dl_upto_step [OF n(1)])
      have nl: "n < L" using n by simp
      have dims: "2 * L - 1 \<le> nrows (dl_upto ssht_dl L (pi / 2) (nat n))"
        "2 * L - 1 \<le> ncols (dl_upto ssht_dl L (pi / 2) (nat n))"
        using assms(5) [of "?D n" n "pi / 2"] unfolding d by simp_all
      have lv: "int (length v) = L\<^sup>2" using len assms(4) by simp
      from step5_inner [OF n(1) nl lv dims assms(2,3)]
      obtain v' where 1: "for_range (- n) n
              (step5_body L (dl_upto ssht_dl L (pi / 2) (nat n)) gmm n) (n\<^sup>2 + 1, v)
            = Some ((n + 1)\<^sup>2 + 1, v')"
        and 2: "length v' = length v"
        and a3: "\<forall>m. - n \<le> m \<and> m \<le> n \<longrightarrow> v' ! nat (n\<^sup>2 + n + m)
           = (\<Sum>mp\<in>{- L + 1..L - 1}.
                of_real (elem (dl_upto ssht_dl L (pi / 2) (nat n)) (L + mp, L + m))
                  * of_real (elem (dl_upto ssht_dl L (pi / 2) (nat n)) (L + mp, L))
                  * elem gmm (L + m, L + mp))
             * \<i> powi m * of_real (sqrt ((2 * of_int n + 1) / (4 * pi)))"
        and a4: "\<forall>i. int i < n\<^sup>2 \<longrightarrow> v' ! i = v ! i"
        by (elim exE conjE)
      have 3: "v' ! nat (n\<^sup>2 + n + m) = flm_value ssht_dl L gmm n m" if "- n \<le> m" "m \<le> n" for m
        unfolding flm_value_def using a3 that by simp
      have 4: "v' ! i = v ! i" if "int i < n\<^sup>2" for i using a4 that by simp
      have D': "?D (n + 1) = dl_upto ssht_dl L (pi / 2) (nat n)" using n by simp
      have b: "?body n s = Some (?D (n + 1), (n + 1)\<^sup>2 + 1, v')"
        unfolding s D' by (simp add: d 1 Let_def del: dl_upto.simps)
      have "v' ! nat (l\<^sup>2 + l + m) = flm_value ssht_dl L gmm l m"
        if lm: "0 \<le> l" "l < n + 1" "- l \<le> m" "m \<le> l" for l m
      proof (cases "l = n")
        case True
        then show ?thesis using 3 [of m] lm by simp
      next
        case False
        then have ln: "l < n" using lm by simp
        have "0 \<le> l\<^sup>2" by simp
        then have "int (nat (l\<^sup>2 + l + m)) < n\<^sup>2"
          using sq_succ_le [OF lm(1) ln] lm by linarith
        then show ?thesis using 4 vals [OF lm(1) ln lm(3,4)] by simp
      qed
      then have "?I (n + 1) (?D (n + 1), (n + 1)\<^sup>2 + 1, v')"
        using 2 len by (intro exI [of _ v']) simp
      then show ?thesis unfolding b by (intro exI [of _ "(?D (n + 1), (n + 1)\<^sup>2 + 1, v')"] conjI refl)
    qed
  qed
  then obtain v where 1: "for_range 0 (L - 1) ?body (zeros (2 * L - 1) (2 * L - 1), 1, v0)
          = Some (?D (L - 1 + 1), (L - 1 + 1)\<^sup>2 + 1, v)"
    and 2: "length v = length v0"
    and a3: "\<forall>l m. 0 \<le> l \<and> l < L - 1 + 1 \<and> - l \<le> m \<and> m \<le> l
                      \<longrightarrow> v ! nat (l\<^sup>2 + l + m) = flm_value ssht_dl L gmm l m"
    by (elim exE conjE) simp
  have 3: "v ! nat (l\<^sup>2 + l + m) = flm_value ssht_dl L gmm l m"
    if "0 \<le> l" "l < L - 1 + 1" "- l \<le> m" "m \<le> l" for l m
    using a3 that by simp
  have D: "?D (L - 1 + 1) = dl_upto ssht_dl L (pi / 2) (nat (L - 1))" using assms(1) by simp
  show ?thesis
  proof (intro exI [of _ v] conjI allI impI)
    show "step5 ssht_dl L gmm (zeros (2 * L - 1) (2 * L - 1), 1, v0)
        = Some (dl_upto ssht_dl L (pi / 2) (nat (L - 1)), L\<^sup>2 + 1, v)"
      using 1 unfolding D by (simp add: step5_def)
    show "length v = length v0" by (rule 2)
    show "v ! nat (l\<^sup>2 + l + m) = flm_value ssht_dl L gmm l m"
      if "0 \<le> l \<and> l < L \<and> - l \<le> m \<and> m \<le> l" for l m
      using that by (intro 3) simp_all
  qed
qed

subsection \<open>The forward transform as a whole\<close>

lemma array_dims [simp]:
  "nrows (fm_array L f thetas phis fm) = nrows fm" "ncols (fm_array L f thetas phis fm) = ncols fm"
  "nrows (fmm_array L fm thetasExt fmm) = nrows fmm" "ncols (fmm_array L fm thetasExt fmm) = ncols fmm"
  "nrows (gmm_array L fmm gmm) = nrows gmm" "ncols (gmm_array L fmm gmm) = ncols gmm"
  by (simp_all add: fm_array_def fmm_array_def gmm_array_def)

lemma length_thetasExt_of: "length (thetasExt_of thetas) = length thetas + (length thetas - 1)"
  by (simp add: thetasExt_of_def)

lemma forward_for_dft_eq:
  assumes "0 < L" and "nrows f = L" and "ncols f = 2 * L - 1"
    and "ssht_sampling L = (thetas, phis)"
    and "int (length thetas) = L" and "int (length phis) = 2 * L - 1"
    and "\<And>d l theta. 2 * L - 1 \<le> nrows (ssht_dl d L l theta)
            \<and> 2 * L - 1 \<le> ncols (ssht_dl d L l theta)"
  defines "Z \<equiv> zeros (2 * L - 1) (2 * L - 1)"
  defines "fm \<equiv> fm_array L f thetas phis Z"
  defines "fmm \<equiv> fmm_array L fm (thetasExt_of thetas) Z"
  defines "gmm \<equiv> gmm_array L fmm Z"
  shows "steps12 L f thetas phis Z = Some fm"
    and "step3 L fm (thetasExt_of thetas) Z = Some fmm"
    and "step4 L fmm Z = Some gmm"
    and "\<exists>flm. step5 ssht_dl L gmm (zeros (2 * L - 1) (2 * L - 1), 1, replicate (nat (L\<^sup>2)) 0)
             = Some (dl_upto ssht_dl L (pi / 2) (nat (L - 1)), L\<^sup>2 + 1, flm)
         \<and> forward_for_dft ssht_sampling ssht_dl L f = Some flm
         \<and> length flm = nat (L\<^sup>2)
         \<and> (\<forall>l m. 0 \<le> l \<and> l < L \<and> - l \<le> m \<and> m \<le> l
               \<longrightarrow> flm ! nat (l\<^sup>2 + l + m) = flm_value ssht_dl L gmm l m)"
proof -
  have Z: "nrows Z = 2 * L - 1" "ncols Z = 2 * L - 1"
    using assms(1) by (simp_all add: Z_def zeros_dims)
  show 1: "steps12 L f thetas phis Z = Some fm"
    unfolding fm_def fm_array_def using assms(1-6) Z by (intro steps12_eq) simp_all
  have lt: "int (length (thetasExt_of thetas)) = 2 * L - 1"
    using assms(1,5) by (simp add: length_thetasExt_of)
  show 2: "step3 L fm (thetasExt_of thetas) Z = Some fmm"
    unfolding fmm_def fmm_array_def using assms(1) Z lt
    by (intro step3_eq) (simp_all add: fm_def)
  show 3: "step4 L fmm Z = Some gmm"
    unfolding gmm_def gmm_array_def using assms(1) Z
    by (intro step4_eq) (simp_all add: fmm_def)
  have g: "2 * L - 1 \<le> nrows gmm" "2 * L - 1 \<le> ncols gmm" using Z by (simp_all add: gmm_def)
  have l0: "int (length (replicate (nat (L\<^sup>2)) (0::complex))) = L\<^sup>2" by simp
  from step5_eq [where ssht_dl = ssht_dl and L = L and gmm = gmm
      and ?v0.0 = "replicate (nat (L\<^sup>2)) 0", OF assms(1) g l0 assms(7)]
  obtain flm where 5: "step5 ssht_dl L gmm (zeros (2 * L - 1) (2 * L - 1), 1, replicate (nat (L\<^sup>2)) 0)
             = Some (dl_upto ssht_dl L (pi / 2) (nat (L - 1)), L\<^sup>2 + 1, flm)"
    and 6: "length flm = length (replicate (nat (L\<^sup>2)) (0::complex))"
    and 7: "\<forall>l m. 0 \<le> l \<and> l < L \<and> - l \<le> m \<and> m \<le> l
               \<longrightarrow> flm ! nat (l\<^sup>2 + l + m) = flm_value ssht_dl L gmm l m"
    by (elim exE conjE)
  have "forward_for_dft ssht_sampling ssht_dl L f = Some flm"
    using assms(2,3) 1 2 3 5
    by (simp add: forward_for_dft_def assms(4) Z_def [symmetric])
  with 5 6 7 show "\<exists>flm. step5 ssht_dl L gmm (zeros (2 * L - 1) (2 * L - 1), 1, replicate (nat (L\<^sup>2)) 0)
             = Some (dl_upto ssht_dl L (pi / 2) (nat (L - 1)), L\<^sup>2 + 1, flm)
         \<and> forward_for_dft ssht_sampling ssht_dl L f = Some flm
         \<and> length flm = nat (L\<^sup>2)
         \<and> (\<forall>l m. 0 \<le> l \<and> l < L \<and> - l \<le> m \<and> m \<le> l
               \<longrightarrow> flm ! nat (l\<^sup>2 + l + m) = flm_value ssht_dl L gmm l m)"
    by (intro exI [of _ flm]) simp
qed

text \<open>
  \<^bold>\<open>Claim C10\<close>. For a positive band-limit \<open>L\<close>, an \<open>L \<times> (2L-1)\<close> array of samples, a
  coefficient vector of length \<open>L\<^sup>2\<close>, a grid of \<open>L\<close> colatitudes and \<open>2L-1\<close> longitudes and
  Wigner matrices of \<open>2L-1\<close> rows and columns, no array access of \<open>forward_for_dft\<close> and
  \<open>inverse_direct\<close> is out of range: the extended colatitude vector has \<open>2L-1\<close> entries;
  every step returns (no read fails) and leaves \<open>fm\<close>, \<open>fmm\<close>, \<open>gmm\<close> with \<open>2L-1\<close> rows
  and columns and \<open>flm\<close> with \<open>L\<^sup>2\<close> entries (no write enlarges an array); and the index
  \<open>lmi\<close> (and \<open>lmindex\<close>) ends at \<open>L\<^sup>2 + 1\<close>, having run over \<open>1..L\<^sup>2\<close>.
\<close>

theorem no_out_of_range_access:
  assumes "0 < L" and "ssht_sampling L = (thetas, phis)"
    and "int (length thetas) = L" and "int (length phis) = 2 * L - 1"
    and "nrows f = L" and "ncols f = 2 * L - 1" and "int (length flm) = L\<^sup>2"
    and "\<And>d l theta. nrows (ssht_dl d L l theta) = 2 * L - 1
            \<and> ncols (ssht_dl d L l theta) = 2 * L - 1"
  shows "int (length (thetasExt_of thetas)) = 2 * L - 1
     \<and> (\<exists>fm fmm gmm dl flm'.
          steps12 L f thetas phis (zeros (2 * L - 1) (2 * L - 1)) = Some fm
          \<and> nrows fm = 2 * L - 1 \<and> ncols fm = 2 * L - 1
          \<and> step3 L fm (thetasExt_of thetas) (zeros (2 * L - 1) (2 * L - 1)) = Some fmm
          \<and> nrows fmm = 2 * L - 1 \<and> ncols fmm = 2 * L - 1
          \<and> step4 L fmm (zeros (2 * L - 1) (2 * L - 1)) = Some gmm
          \<and> nrows gmm = 2 * L - 1 \<and> ncols gmm = 2 * L - 1
          \<and> step5 ssht_dl L gmm (zeros (2 * L - 1) (2 * L - 1), 1, replicate (nat (L\<^sup>2)) 0)
              = Some (dl, L\<^sup>2 + 1, flm')
          \<and> int (length flm') = L\<^sup>2
          \<and> forward_for_dft ssht_sampling ssht_dl L f = Some flm')
     \<and> (\<exists>f'. inverse_direct ssht_sampling ssht_dl L flm = Some f'
          \<and> nrows f' = L \<and> ncols f' = 2 * L - 1)
     \<and> (\<forall>theta phi. \<exists>sum dl.
          inverse_direct_point ssht_dl L flm theta phi = Some (sum, L\<^sup>2 + 1, dl))"
proof (intro conjI)
  have dl: "2 * L - 1 \<le> nrows (ssht_dl d L l theta) \<and> 2 * L - 1 \<le> ncols (ssht_dl d L l theta)"
    for d l theta
    using assms(8) [of d l theta] by simp
  have dl': "2 * L - 1 \<le> nrows (ssht_dl d L l theta) \<and> L \<le> ncols (ssht_dl d L l theta)"
    for d l theta
    using assms(1) assms(8) [of d l theta] by simp
  show "int (length (thetasExt_of thetas)) = 2 * L - 1"
    using assms(1,3) by (simp add: length_thetasExt_of)
  let ?Z = "zeros (2 * L - 1) (2 * L - 1) :: complex marray"
  have Z: "nrows ?Z = 2 * L - 1" "ncols ?Z = 2 * L - 1"
    using assms(1) by (simp_all add: zeros_dims)
  note f = forward_for_dft_eq [where ssht_dl = ssht_dl and L = L and f = f
      and ssht_sampling = ssht_sampling and thetas = thetas and phis = phis,
      OF assms(1,5,6,2,3,4) dl]
  from f(4) obtain flm' where
    5: "step5 ssht_dl L
          (gmm_array L (fmm_array L (fm_array L f thetas phis ?Z) (thetasExt_of thetas) ?Z) ?Z)
          (zeros (2 * L - 1) (2 * L - 1), 1, replicate (nat (L\<^sup>2)) 0)
        = Some (dl_upto ssht_dl L (pi / 2) (nat (L - 1)), L\<^sup>2 + 1, flm')"
    and 6: "forward_for_dft ssht_sampling ssht_dl L f = Some flm'"
    and 7: "length flm' = nat (L\<^sup>2)"
    by (elim exE conjE)
  show "\<exists>fm fmm gmm dl flm'.
          steps12 L f thetas phis ?Z = Some fm
          \<and> nrows fm = 2 * L - 1 \<and> ncols fm = 2 * L - 1
          \<and> step3 L fm (thetasExt_of thetas) ?Z = Some fmm
          \<and> nrows fmm = 2 * L - 1 \<and> ncols fmm = 2 * L - 1
          \<and> step4 L fmm ?Z = Some gmm
          \<and> nrows gmm = 2 * L - 1 \<and> ncols gmm = 2 * L - 1
          \<and> step5 ssht_dl L gmm (zeros (2 * L - 1) (2 * L - 1), 1, replicate (nat (L\<^sup>2)) 0)
              = Some (dl, L\<^sup>2 + 1, flm')
          \<and> int (length flm') = L\<^sup>2
          \<and> forward_for_dft ssht_sampling ssht_dl L f = Some flm'"
    using f(1-3) 5 6 7 Z
    by (intro exI [of _ "fm_array L f thetas phis ?Z"]
        exI [of _ "fmm_array L (fm_array L f thetas phis ?Z) (thetasExt_of thetas) ?Z"]
        exI [of _ "gmm_array L (fmm_array L (fm_array L f thetas phis ?Z) (thetasExt_of thetas) ?Z) ?Z"]
        exI [of _ "dl_upto ssht_dl L (pi / 2) (nat (L - 1))"] exI [of _ flm']) simp
  show "\<exists>f'. inverse_direct ssht_sampling ssht_dl L flm = Some f'
          \<and> nrows f' = L \<and> ncols f' = 2 * L - 1"
    using assms(3,4)
    by (simp add: inverse_direct_eq [where ssht_dl = ssht_dl and L = L and flm = flm
          and ssht_sampling = ssht_sampling and thetas = thetas and phis = phis,
          OF assms(1,7,2) dl'] zeros_dims)
  show "\<forall>theta phi. \<exists>sum dl.
          inverse_direct_point ssht_dl L flm theta phi = Some (sum, L\<^sup>2 + 1, dl)"
    by (simp add: inverse_direct_point_eq [where ssht_dl = ssht_dl and L = L and flm = flm,
          OF assms(1,7) dl'])
qed

subsection \<open>The round trip at band-limit 2\<close>

lemma mw2: "mw_sampling 2 = ([pi / 3, pi], [0, 2 * pi / 3, 4 * pi / 3])"
  by (simp add: mw_sampling_def upto.simps)

lemma sum_int_0_1: "(\<Sum>i\<in>{0..1::int}. g i) = g 0 + (g 1 :: 'a :: comm_monoid_add)"
proof -
  have "{0..1::int} = {0, 1}" by auto
  then show ?thesis by simp
qed

lemma sum_int_m1_1: "(\<Sum>i\<in>{- 1..1::int}. g i) = g (- 1) + (g 0 + (g 1 :: 'a :: comm_monoid_add))"
proof -
  have "{- 1..1::int} = {- 1, 0, 1}" by auto
  then show ?thesis by simp
qed

lemma sum_int_0_2: "(\<Sum>i\<in>{0..2::int}. g i) = g 0 + (g 1 + (g 2 :: 'a :: comm_monoid_add))"
proof -
  have "{0..2::int} = {0, 1, 2}" by auto
  then show ?thesis by simp
qed

lemma sum_int_1_3: "(\<Sum>i\<in>{1..3::int}. g i) = g 1 + (g 2 + (g 3 :: 'a :: comm_monoid_add))"
proof -
  have "{1..3::int} = {1, 2, 3}" by auto
  then show ?thesis by simp
qed

lemma synth_L2:
  "synth_value wigner_dl 2 [0, 0, 1, 0] theta phi = of_real (sqrt (3 / (4 * pi)) * cos theta)"
  by (simp add: synth_value_def synth_term_def sum_int_0_1 sum_int_m1_1 wigner_dl_def wigner_d1_def
      eval_nat_numeral)

lemma exp_at_thetasExt:
  "exp (- \<i> * of_int mpp * complex_of_real (pi / 3)) = cis (- (of_int mpp * pi / 3))"
  "exp (- \<i> * of_int mpp * complex_of_real pi) = cis (- (of_int mpp * pi))"
  "exp (- \<i> * of_int mpp * complex_of_real (2 * pi - pi / 3)) = cis (of_int mpp * pi / 3)"
proof -
  show "exp (- \<i> * of_int mpp * complex_of_real (pi / 3)) = cis (- (of_int mpp * pi / 3))"
    by (simp add: cis_conv_exp mult.assoc)
  show "exp (- \<i> * of_int mpp * complex_of_real pi) = cis (- (of_int mpp * pi))"
    by (simp add: cis_conv_exp mult.assoc)
  have a: "- \<i> * of_int mpp * complex_of_real (2 * pi - pi / 3)
      = \<i> * complex_of_real (of_int mpp * pi / 3 - 2 * pi * of_int mpp)"
    by (simp add: algebra_simps)
  have "exp (- \<i> * of_int mpp * complex_of_real (2 * pi - pi / 3))
      = cis (of_int mpp * pi / 3 - 2 * pi * of_int mpp)"
    by (simp only: a cis_conv_exp)
  also have "\<dots> = cis (of_int mpp * pi / 3) / cis (2 * pi * of_int mpp)"
    by (simp only: cis_divide)
  also have "\<dots> = cis (of_int mpp * pi / 3)" by simp
  finally show "exp (- \<i> * of_int mpp * complex_of_real (2 * pi - pi / 3)) = cis (of_int mpp * pi / 3)" .
qed

lemma three_point_sum:
  assumes "\<bar>mpp\<bar> \<le> 1"
  shows "- cis (- (of_int mpp * pi / 3)) + cis (- (of_int mpp * pi)) / 2 - cis (of_int mpp * pi / 3)
     = - 3 / 2"
proof -
  from assms have "mpp = - 1 \<or> mpp = 0 \<or> mpp = 1" by linarith
  then show ?thesis
    by (auto simp: complex_eq_iff cos_60 sin_60)
qed

lemma wigner_dl_dims:
  "2 * L - 1 \<le> nrows (wigner_dl d L l theta) \<and> 2 * L - 1 \<le> ncols (wigner_dl d L l theta)"
  by (simp add: wigner_dl_def)

lemma dl0_L2:
  "elem (dl_upto wigner_dl 2 theta (nat 0)) (i, 2) = (if i = 2 then 1 else 0)"
  by (simp add: wigner_dl_def zeros_def)

text \<open>
  \<^bold>\<open>Claim C1\<close> fails on the code. With \<open>L = 2\<close> and the coefficient vector
  \<open>[0, 0, 1, 0]\<close> (only \<open>l = 1, m = 0\<close>), the first coefficient that \<open>forward_for_dft\<close>
  returns for the samples of \<open>inverse_direct\<close> is \<open>-\<surd>3/2\<close>, not 0. Steps 1 and 2 store the
  colatitude index \<open>t\<close> at column \<open>L + t\<close> and its reflection at \<open>L - t\<close>, while step 3
  reads column \<open>t + 1\<close> together with \<open>thetasExt(t + 1)\<close>.
\<close>

theorem round_trip_fails:
  "map_option (\<lambda>flm. flm ! 0)
     (inverse_direct mw_sampling wigner_dl 2 [0, 0, 1, 0] \<bind> forward_for_dft mw_sampling wigner_dl 2)
   = Some (- complex_of_real (sqrt 3 / 2))"
proof -
  define thetas :: "real list" where "thetas = [pi / 3, pi]"
  define phis :: "real list" where "phis = [0, 2 * pi / 3, 4 * pi / 3]"
  define c :: real where "c = sqrt (3 / (4 * pi))"
  define F :: "complex marray" where
    "F = (zeros (int (length thetas)) (int (length phis)))\<lparr>elem := (\<lambda>(j, k).
          if 1 \<le> j \<and> j \<le> int (length thetas) \<and> (1 \<le> k \<and> k \<le> int (length phis))
          then synth_value wigner_dl 2 [0, 0, 1, 0] (thetas ! nat (j - 1)) (phis ! nat (k - 1))
          else 0)\<rparr>"
  define Z :: "complex marray" where "Z = zeros (2 * 2 - 1) (2 * 2 - 1)"
  define FM where "FM = fm_array 2 F thetas phis Z"
  define FMM where "FMM = fmm_array 2 FM (thetasExt_of thetas) Z"
  define GMM where "GMM = gmm_array 2 FMM Z"
  have mw: "mw_sampling 2 = (thetas, phis)" by (simp add: mw2 thetas_def phis_def)
  have dims: "2 * 2 - 1 \<le> nrows (wigner_dl d 2 l theta) \<and> 2 \<le> ncols (wigner_dl d 2 l theta)"
    for d l theta
    by (simp add: wigner_dl_def)
  have inv: "inverse_direct mw_sampling wigner_dl 2 [0, 0, 1, 0] = Some F"
    unfolding F_def
    by (rule inverse_direct_eq [where ssht_dl = wigner_dl and L = 2 and flm = "[0, 0, 1, 0]"
          and ssht_sampling = mw_sampling and thetas = thetas and phis = phis, OF _ _ mw dims])
       simp_all
  have Fd: "nrows F = 2" "ncols F = 2 * 2 - 1" by (simp_all add: F_def zeros_def thetas_def phis_def)
  have F1: "elem F (1, k) = of_real (c / 2)" if "1 \<le> k" "k \<le> 3" for k
    using that by (simp add: F_def synth_L2 thetas_def phis_def c_def cos_60)
  have F2: "elem F (2, k) = of_real (- c)" if "1 \<le> k" "k \<le> 3" for k
    using that by (simp add: F_def synth_L2 thetas_def phis_def c_def)
  have len: "int (length thetas) = 2" "int (length phis) = 2 * 2 - 1"
    by (simp_all add: thetas_def phis_def)
  from forward_for_dft_eq(4) [where ssht_dl = wigner_dl and L = 2 and f = F
      and ssht_sampling = mw_sampling and thetas = thetas and phis = phis,
      OF _ Fd mw len wigner_dl_dims]
  obtain flm where fwd: "forward_for_dft mw_sampling wigner_dl 2 F = Some flm"
    and val: "\<forall>l m. 0 \<le> l \<and> l < 2 \<and> - l \<le> m \<and> m \<le> l
               \<longrightarrow> flm ! nat (l\<^sup>2 + l + m) = flm_value wigner_dl 2 GMM l m"
    unfolding GMM_def FMM_def FM_def Z_def by auto
  have d1: "dft_phi F phis 0 0 = of_real (3 * c / 2)" "dft_phi F phis 0 1 = of_real (- 3 * c)"
    by (simp_all add: dft_phi_def F1 F2 sum_int_1_3 phis_def)
  have fm: "elem FM (2, 1) = of_real (- c)" "elem FM (2, 2) = of_real (c / 2)"
    "elem FM (2, 3) = of_real (- c)"
    by (simp_all add: FM_def fm_array_def fm_value_def d1 thetas_def)
  define T where "T = thetasExt_of thetas"
  have te: "T = [pi / 3, pi, 2 * pi - pi / 3]"
    by (simp add: T_def thetas_def thetasExt_of_def)
  have lenT: "int (length T) - 1 = 2" by (simp add: te)
  have T0: "T ! nat 0 = pi / 3" and T1: "T ! nat 1 = pi" and T2: "T ! nat 2 = 2 * pi - pi / 3"
    unfolding te by (simp_all add: eval_nat_numeral)
  have fmm: "elem FMM (2, 2 + mpp) = of_real (- c / 2)" if "\<bar>mpp\<bar> \<le> 1" for mpp
  proof -
    have r: "- 1 \<le> mpp" "mpp \<le> 1" using that by linarith+
    define E where "E theta = exp (- \<i> * of_int mpp * complex_of_real theta)" for theta
    have E: "E (T ! nat 0) = cis (- (of_int mpp * pi / 3))"
      "E (T ! nat 1) = cis (- (of_int mpp * pi))"
      "E (T ! nat 2) = cis (of_int mpp * pi / 3)"
      unfolding E_def T0 T1 T2 by (rule exp_at_thetasExt)+
    have "fmm_value 2 FM T 0 mpp = (\<Sum>t\<in>{0..2}. elem FM (2 + 0, t + 1) * E (T ! nat t)) / of_int (2 * 2 - 1)"
      unfolding fmm_value_def E_def lenT ..
    also have "\<dots> = (of_real (- c) * cis (- (of_int mpp * pi / 3))
                      + (of_real (c / 2) * cis (- (of_int mpp * pi))
                         + of_real (- c) * cis (of_int mpp * pi / 3))) / 3"
      unfolding sum_int_0_2 E by (simp add: fm)
    also have "\<dots> = of_real c * (- cis (- (of_int mpp * pi / 3)) + cis (- (of_int mpp * pi)) / 2
                        - cis (of_int mpp * pi / 3)) / 3"
      by (simp add: algebra_simps)
    also have "\<dots> = of_real c * (- 3 / 2) / 3"
      by (simp only: three_point_sum [OF that])
    also have "\<dots> = of_real (- c / 2)" by simp
    finally show ?thesis
      using r by (simp add: FMM_def fmm_array_def T_def)
  qed
  have gmm: "elem GMM (2, 2) = of_real (- 2 * pi * c)"
  proof -
    have "gmm_value 2 FMM 0 0 = of_real (- 2 * pi * c)"
      using fmm [of "- 1"] fmm [of 0] fmm [of 1]
      by (simp add: gmm_value_def sum_int_m1_1 step4_w_def algebra_simps)
    then show ?thesis by (simp add: GMM_def gmm_array_def)
  qed
  have "flm ! 0 = flm_value wigner_dl 2 GMM 0 0" using val by force
  also have "\<dots> = of_real (- 2 * pi * c) * of_real (sqrt (1 / (4 * pi)))"
    using dl0_L2 [of "pi / 2"] by (simp add: flm_value_def sum_int_m1_1 gmm)
  also have "\<dots> = of_real (- 2 * pi * (c * sqrt (1 / (4 * pi))))"
    by (simp add: mult.assoc)
  also have "c * sqrt (1 / (4 * pi)) = sqrt 3 / (4 * pi)"
  proof -
    have "c * sqrt (1 / (4 * pi)) = sqrt 3 / (sqrt (4 * pi) * sqrt (4 * pi))"
      unfolding c_def by (simp only: real_sqrt_divide real_sqrt_one times_divide_times_eq mult_1_right)
    also have "sqrt (4 * pi) * sqrt (4 * pi) = 4 * pi"
      by (simp only: real_sqrt_mult_self) simp
    finally show ?thesis .
  qed
  also have "complex_of_real (- 2 * pi * (sqrt 3 / (4 * pi))) = - of_real (sqrt 3 / 2)"
    by simp
  finally show ?thesis by (simp add: inv fwd)
qed

subsection \<open>The transforms at band-limits 2 and 3\<close>

theorem no_out_of_range_access_witness:
  "int (length (thetasExt_of [pi / 3, pi])) = 3
   \<and> (\<exists>flm'. forward_for_dft mw_sampling wigner_dl 2 (zeros 2 3) = Some flm' \<and> int (length flm') = 4)
   \<and> (\<exists>f'. inverse_direct mw_sampling wigner_dl 2 [0, 0, 1, 0] = Some f'
          \<and> nrows f' = 2 \<and> ncols f' = 3)"
proof -
  have d: "nrows (wigner_dl d 2 l theta) = 2 * 2 - 1 \<and> ncols (wigner_dl d 2 l theta) = 2 * 2 - 1"
    for d l theta
    by (simp add: wigner_dl_def)
  have z: "nrows (zeros 2 3 :: complex marray) = 2" "ncols (zeros 2 3 :: complex marray) = 2 * 2 - 1"
    by (simp_all add: zeros_def)
  have l: "int (length [pi / 3, pi]) = 2" "int (length [0, 2 * pi / 3, 4 * pi / 3 :: real]) = 2 * 2 - 1"
    "int (length [0, 0, 1, 0 :: complex]) = 2\<^sup>2"
    by simp_all
  have p: "(0::int) < 2" by simp
  from no_out_of_range_access [where ssht_dl = wigner_dl and L = 2 and f = "zeros 2 3"
      and ssht_sampling = mw_sampling and thetas = "[pi / 3, pi]"
      and phis = "[0, 2 * pi / 3, 4 * pi / 3]" and flm = "[0, 0, 1, 0]",
      OF p mw2 l(1,2) z l(3) d]
  show ?thesis by auto
qed

theorem steps12_coefficients_witness:
  "\<exists>fm. steps12 2 ((zeros 2 3)\<lparr>elem := (\<lambda>(i, j). of_int (i + j))\<rparr>) [pi / 3, pi] [0, 2 * pi / 3, 4 * pi / 3] (zeros 3 3) = Some fm
     \<and> elem fm (3, 1) = (- 1) powi 1 * elem fm (3, 3)"
proof -
  define f :: "complex marray" where "f = (zeros 2 3)\<lparr>elem := (\<lambda>(i, j). of_int (i + j))\<rparr>"
  have z: "nrows f = 2" "ncols f = 2 * 2 - 1"
    by (simp_all add: f_def zeros_def)
  have l: "int (length [pi / 3, pi]) = 2" "int (length [0, 2 * pi / 3, 4 * pi / 3 :: real]) = 2 * 2 - 1"
    by simp_all
  have p: "(0::int) < 2" by simp
  from steps12_coefficients [OF p z l]
  obtain fm where 1: "steps12 2 f [pi / 3, pi] [0, 2 * pi / 3, 4 * pi / 3] (zeros (2 * 2 - 1) (2 * 2 - 1)) = Some fm"
    and 2: "\<forall>m\<in>{- (2 - 1)..2 - 1}. \<forall>t\<in>{0..2 - 1}.
        elem fm (2 + m, 2 + t)
          = (\<Sum>p\<in>{1..2 * 2 - 1}.
               elem f (t + 1, p) * exp (- \<i> * of_int m * of_real ([0, 2 * pi / 3, 4 * pi / 3] ! nat (p - 1))))
            / of_int (2 * 2 - 1)
        \<and> (0 < t \<longrightarrow> elem fm (2 + m, 2 - t) = (- 1) powi m * elem fm (2 + m, 2 + t))"
    by (elim exE conjE)
  from 2 have "elem fm (2 + 1, 2 - 1) = (- 1) powi 1 * elem fm (2 + 1, 2 + 1)"
    by (elim ballE [of _ _ 1]) simp_all
  with 1 show ?thesis unfolding f_def by simp
qed


lemma sum_int_m2_2:
  "(\<Sum>i\<in>{- 2..2::int}. g i) = g (- 2) + (g (- 1) + (g 0 + (g 1 + (g 2 :: 'a :: comm_monoid_add))))"
proof -
  have "{- 2..2::int} = {- 2, - 1, 0, 1, 2}" by auto
  then show ?thesis by simp
qed

theorem step4_deconvolution_witness:
  "\<exists>gmm. step4 3
       \<lparr>nrows = 5, ncols = 5,
        elem = (\<lambda>(i, j). if j = 1 then 1 else if j = 2 then 2 else if j = 3 then 3
                         else if j = 4 then 5 else 15)\<rparr>
       (zeros 5 5) = Some gmm
     \<and> elem gmm (3, 1) = 2 * of_real pi * (\<i> * of_real pi - 2)"
proof -
  define fmm :: "complex marray" where "fmm = \<lparr>nrows = 5, ncols = 5,
        elem = (\<lambda>(i, j). if j = 1 then 1 else if j = 2 then 2 else if j = 3 then 3
                         else if j = 4 then 5 else 15)\<rparr>"
  have p: "(0::int) < 3" by simp
  have d: "nrows fmm = 2 * 3 - 1" "ncols fmm = 2 * 3 - 1" by (simp_all add: fmm_def)
  from step4_deconvolution [OF p d]
  obtain gmm where 1: "step4 3 fmm (zeros (2 * 3 - 1) (2 * 3 - 1)) = Some gmm"
    and 2: "\<forall>m\<in>{- (3 - 1)..3 - 1}. \<forall>mp\<in>{- (3 - 1)..3 - 1}.
        elem gmm (3 + m, 3 + mp)
          = (\<Sum>mpp\<in>{- (3 - 1)..3 - 1}. elem fmm (3 + m, 3 + mpp) * spec_weight (mpp - mp))"
    by (elim exE conjE)
  from 2 have "elem gmm (3 + 0, 3 + (- 2))
          = (\<Sum>mpp\<in>{- (3 - 1)..3 - 1}. elem fmm (3 + 0, 3 + mpp) * spec_weight (mpp - (- 2)))"
    by (elim ballE [of _ _ 0] ballE [of _ _ "- 2"]) simp_all
  then have "elem gmm (3, 1) = 2 * of_real pi * (\<i> * of_real pi - 2)"
    by (simp add: sum_int_m2_2 fmm_def spec_weight_def algebra_simps)
  with 1 show ?thesis unfolding fmm_def by simp
qed

theorem inverse_direct_synthesis_witness:
  "\<exists>f. inverse_direct mw_sampling wigner_dl 2 [1, 2, 3, 4] = Some f
      \<and> nrows f = 2 \<and> ncols f = 3
      \<and> elem f (1, 2)
          = of_real (sqrt (1 / (4 * pi)))
            + of_real (sqrt (3 / (4 * pi)))
              * (2 * of_real (sin (pi / 3) / sqrt 2) * exp (- (\<i> * of_real (2 * pi / 3)))
                 + 3 * of_real (cos (pi / 3))
                 + 4 * of_real (- (sin (pi / 3) / sqrt 2)) * exp (\<i> * of_real (2 * pi / 3)))"
proof -
  have p: "(0::int) < 2" by simp
  have l: "int (length [1, 2, 3, 4 :: complex]) = 2\<^sup>2" by simp
  have d: "nrows (wigner_dl d 2 l theta) = 2 * 2 - 1 \<and> ncols (wigner_dl d 2 l theta) = 2 * 2 - 1"
    for d l theta
    by (simp add: wigner_dl_def)
  from inverse_direct_synthesis [where ssht_dl = wigner_dl and ssht_sampling = mw_sampling
      and L = 2 and flm = "[1, 2, 3, 4]", OF p l mw2 d]
  obtain f where 1: "inverse_direct mw_sampling wigner_dl 2 [1, 2, 3, 4] = Some f"
    and 2: "nrows f = int (length [pi / 3, pi])" "ncols f = int (length [0, 2 * pi / 3, 4 * pi / 3 :: real])"
    and 3: "\<forall>j\<in>{1..int (length [pi / 3, pi])}. \<forall>k\<in>{1..int (length [0, 2 * pi / 3, 4 * pi / 3 :: real])}.
           elem f (j, k)
             = (\<Sum>l\<in>{0..2 - 1}. \<Sum>m\<in>{- l..l}.
                  [1, 2, 3, 4] ! nat (l\<^sup>2 + l + m) * of_real (sqrt ((2 * of_int l + 1) / (4 * pi)))
                    * of_real (elem (dl_upto wigner_dl 2 ([pi / 3, pi] ! nat (j - 1)) (nat l)) (m + 2, 2))
                    * exp (\<i> * of_int m * of_real ([0, 2 * pi / 3, 4 * pi / 3] ! nat (k - 1))))"
    by (elim exE conjE)
  from 3 have "elem f (1, 2)
             = (\<Sum>l\<in>{0..2 - 1}. \<Sum>m\<in>{- l..l}.
                  [1, 2, 3, 4] ! nat (l\<^sup>2 + l + m) * of_real (sqrt ((2 * of_int l + 1) / (4 * pi)))
                    * of_real (elem (dl_upto wigner_dl 2 ([pi / 3, pi] ! nat (1 - 1)) (nat l)) (m + 2, 2))
                    * exp (\<i> * of_int m * of_real ([0, 2 * pi / 3, 4 * pi / 3] ! nat (2 - 1))))"
    by (elim ballE [of _ _ 1] ballE [of _ _ 2]) simp_all
  then have "elem f (1, 2)
          = of_real (sqrt (1 / (4 * pi)))
            + of_real (sqrt (3 / (4 * pi)))
              * (2 * of_real (sin (pi / 3) / sqrt 2) * exp (- (\<i> * of_real (2 * pi / 3)))
                 + 3 * of_real (cos (pi / 3))
                 + 4 * of_real (- (sin (pi / 3) / sqrt 2)) * exp (\<i> * of_real (2 * pi / 3)))"
    by (simp add: sum_int_0_1 sum_int_m1_1 wigner_dl_def wigner_d1_def eval_nat_numeral
        algebra_simps)
  with 1 2 show ?thesis by simp
qed

subsection \<open>Loops over buffers\<close>

lemma for_range_e_empty: "b < a \<Longrightarrow> for_range_e a b body s = Inr s"
  by simp

lemma for_range_e_step:
  "a \<le> b \<Longrightarrow> for_range_e a b body s
     = (case body a s of Inl e \<Rightarrow> Inl e | Inr s' \<Rightarrow> for_range_e (a + 1) b body s')"
  by simp

declare for_range_e.simps [simp del]

lemma for_range_e_rule:
  assumes "a \<le> b + 1" and "I a s"
    and "\<And>i s. a \<le> i \<Longrightarrow> i \<le> b \<Longrightarrow> I i s \<Longrightarrow> \<exists>s'. body i s = Inr s' \<and> I (i + 1) s'"
  shows "\<exists>s'. for_range_e a b body s = Inr s' \<and> I (b + 1) s'"
  using assms
proof (induction "nat (b + 1 - a)" arbitrary: a s)
  case 0
  then have "a = b + 1" by simp
  with 0 show ?case by (simp add: for_range_e_empty)
next
  case (Suc k)
  then have ab: "a \<le> b" by linarith
  from Suc.prems(3) [OF order_refl ab Suc.prems(2)]
  obtain s1 where s1: "body a s = Inr s1" "I (a + 1) s1" by blast
  have "\<exists>s'. for_range_e (a + 1) b body s1 = Inr s' \<and> I (b + 1) s'"
  proof (rule Suc.hyps(1))
    show "k = nat (b + 1 - (a + 1))" using Suc.hyps(2) by linarith
    show "a + 1 \<le> b + 1" using ab by simp
    show "I (a + 1) s1" by (rule s1(2))
    show "\<exists>s'. body i s = Inr s' \<and> I (i + 1) s'" if "a + 1 \<le> i" "i \<le> b" "I i s" for i s
      using Suc.prems(3) [of i s] that by simp
  qed
  then show ?case by (simp add: for_range_e_step [OF ab] s1(1))
qed

lemma ebind_Inr [simp]: "ebind (Inr x) f = f x"
  by (simp add: ebind_def)

lemma ebind_Inl [simp]: "ebind (Inl e) f = Inl e"
  by (simp add: ebind_def)

lemma rd_inside: "0 \<le> i \<Longrightarrow> i < len b \<Longrightarrow> rd b i = Inr (cell b i)"
  by (simp add: rd_def)

lemma wr_inside: "0 \<le> i \<Longrightarrow> i < len b \<Longrightarrow> wr b i v = Inr (b\<lparr>cell := (cell b)(i := v)\<rparr>)"
  by (simp add: wr_def)

text \<open>A loop that rewrites the cells \<open>base + a, \<dots>, base + b\<close> one by one.\<close>

lemma for_cells:
  assumes "a \<le> b + 1"
    and "\<And>i c. a \<le> i \<Longrightarrow> i \<le> b \<Longrightarrow> len c = len buf
           \<Longrightarrow> body i c = Inr (c\<lparr>cell := (cell c)(base + i := g (cell c (base + i)))\<rparr>)"
  shows "for_range_e a b body buf
     = Inr (buf\<lparr>cell := (\<lambda>k. if base + a \<le> k \<and> k \<le> base + b then g (cell buf k)
                                else cell buf k)\<rparr>)"
proof -
  let ?F = "\<lambda>n k. if base + a \<le> k \<and> k < base + n then g (cell buf k) else cell buf k"
  have "\<exists>s'. for_range_e a b body buf = Inr s' \<and> s' = buf\<lparr>cell := ?F (b + 1)\<rparr>"
  proof (rule for_range_e_rule [where I = "\<lambda>n s. s = buf\<lparr>cell := ?F n\<rparr>"])
    show "a \<le> b + 1" by fact
    have "?F a = cell buf" by (auto simp: fun_eq_iff)
    then show "buf = buf\<lparr>cell := ?F a\<rparr>" by simp
    show "\<exists>s'. body n s = Inr s' \<and> s' = buf\<lparr>cell := ?F (n + 1)\<rparr>"
      if "a \<le> n" "n \<le> b" "s = buf\<lparr>cell := ?F n\<rparr>" for n s
    proof -
      have "body n s = Inr (s\<lparr>cell := (cell s)(base + n := g (cell s (base + n)))\<rparr>)"
        using that by (intro assms(2)) simp_all
      moreover have "(?F n)(base + n := g (?F n (base + n))) = ?F (n + 1)"
        using that(1) by (auto simp: fun_eq_iff)
      then have "s\<lparr>cell := (cell s)(base + n := g (cell s (base + n)))\<rparr> = buf\<lparr>cell := ?F (n + 1)\<rparr>"
        unfolding that(3) by simp
      ultimately show ?thesis by simp
    qed
  qed
  moreover have "?F (b + 1) = (\<lambda>k. if base + a \<le> k \<and> k \<le> base + b then g (cell buf k)
                                else cell buf k)"
    by (auto simp: fun_eq_iff)
  ultimately show ?thesis by simp
qed

lemma c_val_ok: "0 \<le> x \<Longrightarrow> x \<le> INT_MAX \<Longrightarrow> c_val x = Inr x"
  by (simp add: c_val_def INT_MIN_def)

lemma update_cells:
  assumes "a \<le> b + 1" "0 \<le> base + a" "base + b < len buf" "base + b \<le> INT_MAX"
  shows "for_range_e a b
           (\<lambda>i c. ebind (c_val (base + i)) (\<lambda>k. ebind (rd c k) (\<lambda>v. wr c k (h v)))) buf
     = Inr (buf\<lparr>cell := (\<lambda>k. if base + a \<le> k \<and> k \<le> base + b then h (cell buf k)
                                else cell buf k)\<rparr>)"
proof (rule for_cells [OF assms(1)])
  show "ebind (c_val (base + i)) (\<lambda>k. ebind (rd c k) (\<lambda>v. wr c k (h v)))
      = Inr (c\<lparr>cell := (cell c)(base + i := h (cell c (base + i)))\<rparr>)"
    if "a \<le> i" "i \<le> b" "len c = len buf" for i c
  proof -
    have "c_val (base + i) = Inr (base + i)" using that assms by (intro c_val_ok) simp_all
    then show ?thesis using that assms by (simp add: rd_inside wr_inside)
  qed
qed

lemma zero_cells:
  assumes "0 \<le> cnt" "cnt \<le> len buf"
  shows "for_range_e 0 (cnt - 1) (\<lambda>i c. wr c i 0) buf
     = Inr (buf\<lparr>cell := (\<lambda>k. if 0 \<le> k \<and> k < cnt then 0 else cell buf k)\<rparr>)"
proof -
  have "for_range_e 0 (cnt - 1) (\<lambda>i c. wr c i 0) buf
     = Inr (buf\<lparr>cell := (\<lambda>k. if 0 + 0 \<le> k \<and> k \<le> 0 + (cnt - 1) then (\<lambda>_. 0) (cell buf k)
                                else cell buf k)\<rparr>)"
  proof (rule for_cells)
    show "0 \<le> cnt - 1 + 1" using assms by simp
    show "wr c i 0 = Inr (c\<lparr>cell := (cell c)(0 + i := 0)\<rparr>)"
      if "0 \<le> i" "i \<le> cnt - 1" "len c = len buf" for i c
      using that assms by (simp add: wr_inside)
  qed
  moreover have "(\<lambda>k. if 0 + 0 \<le> k \<and> k \<le> 0 + (cnt - 1) then (\<lambda>_. 0) (cell buf k) else cell buf k)
      = (\<lambda>k. if 0 \<le> k \<and> k < cnt then 0 else cell buf k)"
    by (auto simp: fun_eq_iff)
  ultimately show ?thesis by simp
qed


lemma scale_by_degree_eq:
  assumes "0 \<le> el0" "el0 \<le> L" "0 \<le> base" "base + (L\<^sup>2 - el0\<^sup>2) \<le> len buf"
    and "L\<^sup>2 \<le> INT_MAX" "base + (L\<^sup>2 - el0\<^sup>2) \<le> INT_MAX"
  shows "\<exists>buf'. scale_by_degree base el0 L factor buf = Inr buf' \<and> len buf' = len buf
     \<and> (\<forall>l m. el0 \<le> l \<and> l < L \<and> - l \<le> m \<and> m \<le> l
           \<longrightarrow> cell buf' (base + (l\<^sup>2 + l + m - el0\<^sup>2))
               = cell buf (base + (l\<^sup>2 + l + m - el0\<^sup>2)) * factor l)
     \<and> (\<forall>k. k < base \<or> base + (L\<^sup>2 - el0\<^sup>2) \<le> k \<longrightarrow> cell buf' k = cell buf k)"
proof -
  let ?body = "\<lambda>el (buf, i, offset).
             ebind (c_val (2 * el)) (\<lambda>a. ebind (c_val (offset + a)) (\<lambda>b.
             ebind (c_val (b + 1)) (\<lambda>bound.
             ebind
               (for_range_e i (bound - 1)
                  (\<lambda>i buf. ebind (c_val (base + i)) (\<lambda>k.
                            ebind (rd buf k) (\<lambda>v. wr buf k (v * factor el))))
                  buf)
               (\<lambda>buf. let i = max i bound in Inr (buf, i, i)))))"
  let ?I = "\<lambda>el s. \<exists>b. s = (b, el\<^sup>2 - el0\<^sup>2, el\<^sup>2 - el0\<^sup>2) \<and> len b = len buf
      \<and> (\<forall>l m. el0 \<le> l \<and> l < el \<and> - l \<le> m \<and> m \<le> l
            \<longrightarrow> cell b (base + (l\<^sup>2 + l + m - el0\<^sup>2))
                = cell buf (base + (l\<^sup>2 + l + m - el0\<^sup>2)) * factor l)
      \<and> (\<forall>k. k < base \<or> base + (el\<^sup>2 - el0\<^sup>2) \<le> k \<longrightarrow> cell b k = cell buf k)"
  have "\<exists>s'. for_range_e el0 (L - 1) ?body (buf, 0, 0) = Inr s' \<and> ?I (L - 1 + 1) s'"
  proof (rule for_range_e_rule [where I = ?I])
    show "el0 \<le> L - 1 + 1" using assms(2) by simp
    show "?I el0 (buf, 0, 0)" by (rule exI [of _ buf]) auto
    show "\<exists>s'. ?body el s = Inr s' \<and> ?I (el + 1) s'"
      if el: "el0 \<le> el" "el \<le> L - 1" and I: "?I el s" for el s
    proof -
      from I obtain b where s: "s = (b, el\<^sup>2 - el0\<^sup>2, el\<^sup>2 - el0\<^sup>2)" and lb: "len b = len buf"
        and vals: "\<And>l m. el0 \<le> l \<Longrightarrow> l < el \<Longrightarrow> - l \<le> m \<Longrightarrow> m \<le> l
            \<Longrightarrow> cell b (base + (l\<^sup>2 + l + m - el0\<^sup>2))
                = cell buf (base + (l\<^sup>2 + l + m - el0\<^sup>2)) * factor l"
        and frame: "\<And>k. k < base \<or> base + (el\<^sup>2 - el0\<^sup>2) \<le> k \<Longrightarrow> cell b k = cell buf k"
        by blast
      have el0': "0 \<le> el" using assms(1) el by simp
      have mono: "el0\<^sup>2 \<le> el\<^sup>2" using assms(1) el(1) by (intro power_mono) simp_all
      have top: "el\<^sup>2 + 2 * el + 1 \<le> L\<^sup>2" using el0' el(2) by (intro sq_succ_le) simp_all
      have sq: "(el + 1)\<^sup>2 = el\<^sup>2 + 2 * el + 1" by (simp add: power2_eq_square algebra_simps)
      define i where "i = el\<^sup>2 - el0\<^sup>2"
      have i0: "0 \<le> i" using mono by (simp add: i_def)
      have inner: "for_range_e i (i + 2 * el)
                  (\<lambda>i c. ebind (c_val (base + i)) (\<lambda>k.
                          ebind (rd c k) (\<lambda>v. wr c k (v * factor el)))) b
          = Inr (b\<lparr>cell := (\<lambda>k. if base + i \<le> k \<and> k \<le> base + (i + 2 * el)
                                   then cell b k * factor el else cell b k)\<rparr>)"
        using el0' i0 assms(3,4,6) top lb
        by (intro update_cells [where h = "\<lambda>v. v * factor el"]) (simp_all add: i_def)
      have z2: "0 \<le> el0\<^sup>2" by simp
      have hi: "i + 2 * el + 1 \<le> INT_MAX" using top z2 assms(5) unfolding i_def by linarith
      have cv: "c_val (2 * el) = Inr (2 * el)" "c_val (i + 2 * el) = Inr (i + 2 * el)"
        "c_val (i + 2 * el + 1) = Inr (i + 2 * el + 1)"
        using el0' i0 hi by (simp_all add: c_val_ok)
      have bm: "i + 2 * el + 1 - 1 = i + 2 * el" by simp
      define b' where "b' = b\<lparr>cell := (\<lambda>k. if base + i \<le> k \<and> k \<le> base + (i + 2 * el)
                                   then cell b k * factor el else cell b k)\<rparr>"
      have mx: "max i (i + 2 * el + 1) = (el + 1)\<^sup>2 - el0\<^sup>2" using el0' by (simp add: i_def sq)
      have step: "?body el s = Inr (b', (el + 1)\<^sup>2 - el0\<^sup>2, (el + 1)\<^sup>2 - el0\<^sup>2)"
        unfolding s i_def [symmetric]
        by (simp only: prod.case cv ebind_Inr bm inner b'_def [symmetric] mx Let_def)
      have c': "cell b' k = (if base + i \<le> k \<and> k \<le> base + (i + 2 * el)
                                   then cell b k * factor el else cell b k)" for k
        by (simp add: b'_def)
      have v': "cell b' (base + (l\<^sup>2 + l + m - el0\<^sup>2))
                = cell buf (base + (l\<^sup>2 + l + m - el0\<^sup>2)) * factor l"
        if lm: "el0 \<le> l" "l < el + 1" "- l \<le> m" "m \<le> l" for l m
      proof (cases "l = el")
        case True
        have "cell b (base + (el\<^sup>2 + el + m - el0\<^sup>2)) = cell buf (base + (el\<^sup>2 + el + m - el0\<^sup>2))"
          using lm True by (intro frame) simp
        then show ?thesis using lm True by (simp add: c' i_def)
      next
        case False
        then have ln: "l < el" using lm by simp
        have l0: "0 \<le> l" using assms(1) lm by simp
        have "l\<^sup>2 + 2 * l + 1 \<le> el\<^sup>2" using l0 ln by (rule sq_succ_le)
        then have "base + (l\<^sup>2 + l + m - el0\<^sup>2) < base + i" using lm by (simp add: i_def)
        then show ?thesis using vals [OF lm(1) ln lm(3,4)] by (simp add: c')
      qed
      have f': "cell b' k = cell buf k" if "k < base \<or> base + ((el + 1)\<^sup>2 - el0\<^sup>2) \<le> k" for k
      proof -
        have n: "\<not> (base + i \<le> k \<and> k \<le> base + (i + 2 * el))"
          using that i0 by (auto simp: i_def sq)
        have "k < base \<or> base + (el\<^sup>2 - el0\<^sup>2) \<le> k"
          using that el0' by (auto simp: sq)
        then have "cell b k = cell buf k" by (rule frame)
        moreover have "cell b' k = cell b k" unfolding c' using n by (rule if_not_P)
        ultimately show ?thesis by simp
      qed
      have "?I (el + 1) (b', (el + 1)\<^sup>2 - el0\<^sup>2, (el + 1)\<^sup>2 - el0\<^sup>2)"
        using v' f' lb by (intro exI [of _ b']) (simp add: b'_def)
      then show ?thesis
        unfolding step
        by (intro exI [of _ "(b', (el + 1)\<^sup>2 - el0\<^sup>2, (el + 1)\<^sup>2 - el0\<^sup>2)"] conjI refl)
    qed
  qed
  then obtain b where r: "for_range_e el0 (L - 1) ?body (buf, 0, 0)
        = Inr (b, (L - 1 + 1)\<^sup>2 - el0\<^sup>2, (L - 1 + 1)\<^sup>2 - el0\<^sup>2)"
    and lb: "len b = len buf"
    and vals: "\<forall>l m. el0 \<le> l \<and> l < L - 1 + 1 \<and> - l \<le> m \<and> m \<le> l
            \<longrightarrow> cell b (base + (l\<^sup>2 + l + m - el0\<^sup>2))
                = cell buf (base + (l\<^sup>2 + l + m - el0\<^sup>2)) * factor l"
    and frame: "\<forall>k. k < base \<or> base + ((L - 1 + 1)\<^sup>2 - el0\<^sup>2) \<le> k \<longrightarrow> cell b k = cell buf k"
    by (elim exE conjE) simp
  show ?thesis
  proof (intro exI [of _ b] conjI)
    show "scale_by_degree base el0 L factor buf = Inr b"
      by (simp add: scale_by_degree_def r)
    show "len b = len buf" by (rule lb)
    show "\<forall>l m. el0 \<le> l \<and> l < L \<and> - l \<le> m \<and> m \<le> l
           \<longrightarrow> cell b (base + (l\<^sup>2 + l + m - el0\<^sup>2))
               = cell buf (base + (l\<^sup>2 + l + m - el0\<^sup>2)) * factor l"
      using vals by simp
    show "\<forall>k. k < base \<or> base + (L\<^sup>2 - el0\<^sup>2) \<le> k \<longrightarrow> cell b k = cell buf k"
      using frame by simp
  qed
qed

subsection \<open>One slice of the inverse\<close>

lemma pad_not_compact: "is_pad storage \<Longrightarrow> \<not> is_compact storage"
  by (auto simp: is_pad_def is_compact_def)

lemma c_rem_2: "c_rem n 2 \<noteq> 0 \<longleftrightarrow> odd n"
proof -
  have "\<bar>n\<bar> mod 2 = 0 \<longleftrightarrow> even n" by presburger
  moreover have "sgn n = 0 \<Longrightarrow> even n" by (simp add: sgn_if split: if_splits)
  ultimately show ?thesis by (auto simp: c_rem_def)
qed

lemma length_buf_read: "length (buf_read b off cnt) = nat cnt"
  by (simp add: buf_read_def)

lemma nth_buf_read:
  assumes "0 \<le> i" "i < cnt"
  shows "buf_read b off cnt ! nat i = cell b (off + i)"
proof -
  have "[0..cnt - 1] ! nat i = 0 + int (nat i)"
    using assms by (intro nth_upto) simp
  then show ?thesis using assms by (simp add: buf_read_def)
qed

lemma buf_read_0: "buf_read b 0 cnt = map (cell b) [0..cnt - 1]"
  by (simp add: buf_read_def)

lemma slice_pad:
  assumes "is_pad storage"
  shows "slice_el0 storage n = 0"
    and "slice_ind X L N storage n = so3_sampling_elmn2ind X 0 0 n L N storage"
  using assms by (auto simp: slice_el0_def slice_ind_def is_pad_def)

lemma slice_compact:
  assumes "is_compact storage"
  shows "slice_el0 storage n = \<bar>n\<bar>"
    and "slice_ind X L N storage n = so3_sampling_elmn2ind X \<bar>n\<bar> (- \<bar>n\<bar>) n L N storage"
  using assms by (auto simp: slice_el0_def slice_ind_def is_compact_def)

lemma compact_count_eq:
  assumes "n * n \<le> L * L" "L * L \<le> INT_MAX"
  shows "c_val (n * n) = Inr (n * n)" "compact_count L n = Inr (L * L - n * n)"
proof -
  have n0: "0 \<le> n * n" by simp
  have "0 \<le> L * L" by simp
  then have v: "c_val (L * L) = Inr (L * L)" "c_val (L * L - n * n) = Inr (L * L - n * n)"
    using assms n0 by (intro c_val_ok; linarith)+
  show n: "c_val (n * n) = Inr (n * n)" using assms n0 by (intro c_val_ok) simp_all
  show "compact_count L n = Inr (L * L - n * n)"
    by (simp only: compact_count_def v n ebind_Inr)
qed

lemma inverse_switch_eq:
  assumes "is_pad storage \<or> is_compact storage" and "len flm = L * L"
    and "0 \<le> slice_el0 storage n" and "slice_el0 storage n \<le> L"
    and "0 \<le> slice_ind X L N storage n"
    and "slice_ind X L N storage n + (L\<^sup>2 - (slice_el0 storage n)\<^sup>2) \<le> len flmn"
    and "L * L \<le> INT_MAX"
  shows "\<exists>flm'. inverse_switch X flmn L N storage n flm = Inr flm' \<and> len flm' = L * L
     \<and> (\<forall>k. 0 \<le> k \<and> k < L * L \<longrightarrow>
           cell flm' k = (if k < (slice_el0 storage n)\<^sup>2 then 0
                          else cell flmn (slice_ind X L N storage n
                                            + (k - (slice_el0 storage n)\<^sup>2))))"
proof (cases "is_pad storage")
  case True
  have "memcpy flm 0 flmn (so3_sampling_elmn2ind X 0 0 n L N storage) (L * L)
      = Inr (flm\<lparr>cell := (\<lambda>k. if 0 \<le> k \<and> k < 0 + L * L
                              then cell flmn (so3_sampling_elmn2ind X 0 0 n L N storage + (k - 0))
                              else cell flm k)\<rparr>)"
    using assms True by (simp add: memcpy_def slice_pad power2_eq_square)
  moreover have "c_val (L * L) = Inr (L * L)" using assms(7) by (intro c_val_ok) simp_all
  ultimately show ?thesis
    using True by (simp add: inverse_switch_def assms(2) slice_pad)
next
  case False
  with assms(1) have c: "is_compact storage" by simp
  define ind where "ind = so3_sampling_elmn2ind X \<bar>n\<bar> (- \<bar>n\<bar>) n L N storage"
  have e: "slice_el0 storage n = \<bar>n\<bar>" "slice_ind X L N storage n = ind"
    using c by (simp_all add: slice_compact ind_def)
  have sq: "\<bar>n\<bar>\<^sup>2 = n * n" by (simp add: power2_eq_square)
  have L2: "L\<^sup>2 = L * L" by (simp add: power2_eq_square)
  have nL: "n * n \<le> L * L"
    using assms(3,4) power_mono [of "\<bar>n\<bar>" L 2] unfolding e sq L2 by simp
  have n0: "0 \<le> n * n" by simp
  define flm1 where "flm1 = flm\<lparr>cell := (\<lambda>k. if n * n \<le> k \<and> k < L * L
                              then cell flmn (ind + (k - n * n)) else cell flm k)\<rparr>"
  have "(\<lambda>k. if n * n \<le> k \<and> k < n * n + (L * L - n * n)
                              then cell flmn (ind + (k - n * n)) else cell flm k)
      = (\<lambda>k. if n * n \<le> k \<and> k < L * L
                              then cell flmn (ind + (k - n * n)) else cell flm k)"
    by (simp add: fun_eq_iff)
  then have m: "memcpy flm (n * n) flmn ind (L * L - n * n) = Inr flm1"
    using assms(2,5,6) nL n0 unfolding e sq L2 flm1_def memcpy_def by simp
  have z: "for_range_e 0 (n * n - 1) (\<lambda>i c. wr c i 0) flm1
      = Inr (flm1\<lparr>cell := (\<lambda>k. if 0 \<le> k \<and> k < n * n then 0 else cell flm1 k)\<rparr>)"
    using nL n0 assms(2) by (intro zero_cells) (simp_all add: flm1_def)
  note cc = compact_count_eq [OF nL assms(7)]
  have "inverse_switch X flmn L N storage n flm
      = Inr (flm1\<lparr>cell := (\<lambda>k. if 0 \<le> k \<and> k < n * n then 0 else cell flm1 k)\<rparr>)"
    using False c by (simp add: inverse_switch_def ind_def [symmetric] cc m z)
  moreover have "cell (flm1\<lparr>cell := (\<lambda>k. if 0 \<le> k \<and> k < n * n then 0 else cell flm1 k)\<rparr>) k
      = (if k < n * n then 0 else cell flmn (ind + (k - n * n)))" if "0 \<le> k" "k < L * L" for k
    using that by (simp add: flm1_def)
  ultimately show ?thesis
    unfolding e sq using assms(2) by (simp add: flm1_def)
qed


lemma n_offset_eq:
  assumes "- N + 1 \<le> n" "n \<le> N - 1" "2 * N \<le> INT_MAX"
  shows "n_offset N n = Inr (if n < 0 then n + 2 * N - 1 else n)"
proof (cases "n < 0")
  case True
  have "c_val (2 * N) = Inr (2 * N)" "c_val (n + 2 * N) = Inr (n + 2 * N)"
    "c_val (n + 2 * N - 1) = Inr (n + 2 * N - 1)"
    using True assms by (simp_all add: c_val_ok)
  with True show ?thesis by (simp add: n_offset_def)
next
  case False
  then show ?thesis by (simp add: n_offset_def)
qed

lemma slot_range:
  assumes "- N + 1 \<le> (n::int)" "n \<le> N - 1"
  shows "0 \<le> (if n < 0 then n + 2 * N - 1 else n)" "(if n < 0 then n + 2 * N - 1 else n) \<le> 2 * N - 2"
  using assms by simp_all

lemma block_inside:
  assumes "0 \<le> (s::int)" "0 \<le> a" "a \<le> b - 1"
  shows "0 \<le> a * s" "a * s + s \<le> b * s"
proof -
  show "0 \<le> a * s" using assms by simp
  have "(a + 1) * s \<le> b * s" using assms by (intro mult_right_mono) simp_all
  then show "a * s + s \<le> b * s" by (simp add: algebra_simps)
qed

lemma index_below_degree:
  assumes "0 \<le> (l::int)" "- l \<le> m" "m \<le> l" "0 \<le> e"
  shows "l\<^sup>2 + l + m < e\<^sup>2 \<longleftrightarrow> l < e"
proof
  assume a: "l\<^sup>2 + l + m < e\<^sup>2"
  show "l < e"
  proof (rule ccontr)
    assume "\<not> l < e"
    then have "e\<^sup>2 \<le> l\<^sup>2" using assms(4) by (intro power_mono) simp_all
    with a assms show False by linarith
  qed
next
  assume "l < e"
  then have "l\<^sup>2 + 2 * l + 1 \<le> e\<^sup>2" using assms(1) by (intro sq_succ_le)
  with assms show "l\<^sup>2 + l + m < e\<^sup>2" by linarith
qed

lemma index_inside:
  assumes "0 \<le> (l::int)" "l < L" "- l \<le> m" "m \<le> l"
  shows "0 \<le> l\<^sup>2 + l + m" "l\<^sup>2 + l + m < L * L"
proof -
  have "0 \<le> l\<^sup>2" by simp
  with assms show "0 \<le> l\<^sup>2 + l + m" by linarith
  have "l\<^sup>2 + 2 * l + 1 \<le> L\<^sup>2" using assms(1,2) by (rule sq_succ_le)
  with assms show "l\<^sup>2 + l + m < L * L" by (simp add: power2_eq_square)
qed

lemma inverse_slice_eq:
  assumes valid: "is_pad storage \<or> is_compact storage" and L: "0 < L"
    and n: "- N + 1 \<le> n" "n \<le> N - 1"
    and lens: "len flm = L * L" "len fn = (2 * N - 1) * (L * (2 * L - 1))"
    and el0: "slice_el0 storage n \<le> L"
    and ind: "0 \<le> slice_ind X L N storage n"
      "slice_ind X L N storage n + (L\<^sup>2 - (slice_el0 storage n)\<^sup>2) \<le> len flmn"
    and out: "\<And>xs. int (length (ssht_core_mw_inverse_sov_sym X xs L (- n))) = L * (2 * L - 1)"
    and rng: "2 * N \<le> INT_MAX" "(2 * N - 1) * (L * (2 * L - 1)) \<le> INT_MAX" "L * L \<le> INT_MAX"
  shows "\<exists>fn' flm'. inverse_slice X flmn L N storage (L * (2 * L - 1)) n (fn, flm) = Inr (fn', flm')
     \<and> len fn' = len fn \<and> len flm' = L * L
     \<and> inverse_slice_done X flmn L N storage n fn'
     \<and> (\<forall>k. k < (if n < 0 then n + 2 * N - 1 else n) * (L * (2 * L - 1))
              \<or> (if n < 0 then n + 2 * N - 1 else n) * (L * (2 * L - 1)) + L * (2 * L - 1) \<le> k
           \<longrightarrow> cell fn' k = cell fn k)"
proof -
  define s where "s = L * (2 * L - 1)"
  define off where "off = (if n < 0 then n + 2 * N - 1 else n)"
  define e where "e = slice_el0 storage n"
  define ind where "ind = slice_ind X L N storage n"
  define factor :: "int \<Rightarrow> complex"
    where "factor = (\<lambda>el. of_real (sqrt (of_int (2 * el + 1) / (16 * pi ^ 3))))"
  have s0: "0 \<le> s" using L by (simp add: s_def)
  have e0: "0 \<le> e" by (simp add: e_def slice_el0_def)
  note o = slot_range [OF n, folded off_def]
  have "off \<le> (2 * N - 1) - 1" using o by simp
  note blk = block_inside [OF s0 o(1) this]
  have noff: "n_offset N n = Inr off" unfolding off_def by (rule n_offset_eq [OF n rng(1)])
  have top: "(2 * N - 1) * s \<le> INT_MAX" using rng(2) by (simp add: s_def)
  have cv: "c_val (off * s) = Inr (off * s)" using blk s0 top by (intro c_val_ok) simp_all
  from inverse_switch_eq [OF valid lens(1) e0 [unfolded e_def] el0 ind rng(3)]
  obtain flm1 where 1: "inverse_switch X flmn L N storage n flm = Inr flm1"
    and l1: "len flm1 = L * L"
    and c1: "\<forall>k. 0 \<le> k \<and> k < L * L \<longrightarrow>
           cell flm1 k = (if k < e\<^sup>2 then 0 else cell flmn (ind + (k - e\<^sup>2)))"
    unfolding e_def ind_def by (elim exE conjE)
  have "0 + (L\<^sup>2 - 0\<^sup>2) \<le> len flm1" by (simp add: l1 power2_eq_square)
  moreover have "0 \<le> L" using L by simp
  moreover have "L\<^sup>2 \<le> INT_MAX" "0 + (L\<^sup>2 - 0\<^sup>2) \<le> INT_MAX"
    using rng(3) by (simp_all add: power2_eq_square)
  ultimately have "\<exists>buf'. scale_by_degree 0 0 L factor flm1 = Inr buf' \<and> len buf' = len flm1
     \<and> (\<forall>l m. 0 \<le> l \<and> l < L \<and> - l \<le> m \<and> m \<le> l
           \<longrightarrow> cell buf' (0 + (l\<^sup>2 + l + m - 0\<^sup>2))
               = cell flm1 (0 + (l\<^sup>2 + l + m - 0\<^sup>2)) * factor l)
     \<and> (\<forall>k. k < 0 \<or> 0 + (L\<^sup>2 - 0\<^sup>2) \<le> k \<longrightarrow> cell buf' k = cell flm1 k)"
    by (intro scale_by_degree_eq) simp_all
  then
  obtain flm2 where 2: "scale_by_degree 0 0 L factor flm1 = Inr flm2"
    and l2: "len flm2 = len flm1"
    and c2: "\<forall>l m. 0 \<le> l \<and> l < L \<and> - l \<le> m \<and> m \<le> l
           \<longrightarrow> cell flm2 (0 + (l\<^sup>2 + l + m - 0\<^sup>2)) = cell flm1 (0 + (l\<^sup>2 + l + m - 0\<^sup>2)) * factor l"
    by (elim exE conjE)
  define coeffs where "coeffs = buf_read flm2 0 (L * L)"
  define samples where "samples = ssht_core_mw_inverse_sov_sym X coeffs L (- n)"
  have ls: "int (length samples) = s" by (simp add: samples_def out s_def)
  have lfn: "len fn = (2 * N - 1) * s" by (simp add: lens(2) s_def)
  define fn1 where "fn1 = fn\<lparr>cell := (\<lambda>k. if off * s \<le> k \<and> k < off * s + s
                                      then samples ! nat (k - off * s) else cell fn k)\<rparr>"
  have 3: "buf_write fn (off * s) samples = Inr fn1"
    using blk lfn by (simp add: buf_write_def fn1_def ls)
  have lf1: "len fn1 = len fn" by (simp add: fn1_def)
  define fn2 where "fn2 = (if odd n
      then fn1\<lparr>cell := (\<lambda>k. if off * s + 0 \<le> k \<and> k \<le> off * s + (s - 1) then - cell fn1 k
                              else cell fn1 k)\<rparr>
      else fn1)"
  have 4: "(if c_rem n 2 \<noteq> 0
            then for_range_e 0 (s - 1)
                   (\<lambda>i c. ebind (c_val (off * s + i)) (\<lambda>k. ebind (rd c k) (\<lambda>v. wr c k (- v)))) fn1
            else Inr fn1) = Inr fn2"
  proof (cases "odd n")
    case True
    have "for_range_e 0 (s - 1)
                   (\<lambda>i c. ebind (c_val (off * s + i)) (\<lambda>k. ebind (rd c k) (\<lambda>v. wr c k (- v)))) fn1
        = Inr (fn1\<lparr>cell := (\<lambda>k. if off * s + 0 \<le> k \<and> k \<le> off * s + (s - 1) then - cell fn1 k
                              else cell fn1 k)\<rparr>)"
      using s0 blk lfn lf1 top by (intro update_cells) simp_all
    with True show ?thesis by (simp add: c_rem_2 fn2_def)
  next
    case False
    then show ?thesis by (simp add: c_rem_2 fn2_def)
  qed
  have run: "inverse_slice X flmn L N storage s n (fn, flm) = Inr (fn2, flm2)"
    by (simp only: inverse_slice_def prod.case 1 ebind_Inr factor_def [symmetric] 2 noff cv
        coeffs_def [symmetric] samples_def [symmetric] 3 4)
  have lf2: "len fn2 = len fn" by (simp add: fn2_def lf1)
  have cells: "cell fn2 (off * s + i) = (if odd n then - 1 else 1) * samples ! nat i"
    if "0 \<le> i" "i < s" for i
    using that ls by (simp add: fn2_def fn1_def)
  have frame: "cell fn2 k = cell fn k" if "k < off * s \<or> off * s + s \<le> k" for k
    using that ls by (auto simp: fn2_def fn1_def)
  have lc: "int (length coeffs) = L * L" using L by (simp add: coeffs_def length_buf_read)
  have cf: "coeffs ! nat (l\<^sup>2 + l + m)
      = (if l < e then 0 else cell flmn (ind + (l\<^sup>2 + l + m - e\<^sup>2))) * factor l"
    if lm: "0 \<le> l" "l < L" "- l \<le> m" "m \<le> l" for l m
  proof -
    note i = index_inside [OF lm]
    have "coeffs ! nat (l\<^sup>2 + l + m) = cell flm2 (0 + (l\<^sup>2 + l + m))"
      unfolding coeffs_def using i by (rule nth_buf_read)
    also have "\<dots> = cell flm1 (l\<^sup>2 + l + m) * factor l" using c2 lm by simp
    also have "cell flm1 (l\<^sup>2 + l + m)
        = (if l\<^sup>2 + l + m < e\<^sup>2 then 0 else cell flmn (ind + (l\<^sup>2 + l + m - e\<^sup>2)))"
      using c1 i by simp
    finally show ?thesis
      by (simp only: index_below_degree [OF lm(1,3,4) e0])
  qed
  have post: "inverse_slice_done X flmn L N storage n fn2"
    unfolding inverse_slice_done_def
    using lc cf cells
    by (intro exI [of _ coeffs])
      (simp add: e_def ind_def factor_def samples_def s_def off_def)
  show ?thesis
    using run lf2 l2 l1 post frame unfolding s_def off_def
    by (intro exI [of _ fn2] exI [of _ flm2]) simp
qed

subsection \<open>All slices of the inverse\<close>

lemma slot_inj:
  assumes "- N + 1 \<le> n" "n \<le> N - 1" "- N + 1 \<le> n'" "n' \<le> N - 1" "n \<noteq> n'"
  shows "(if n < 0 then n + 2 * N - 1 else n) \<noteq> (if n' < 0 then n' + 2 * N - 1 else (n'::int))"
  using assms by (auto split: if_splits)

lemma block_disjoint:
  assumes "0 \<le> (s::int)" "a \<noteq> b" "0 \<le> j" "j < s"
  shows "a * s + j < b * s \<or> b * s + s \<le> a * s + j"
proof (cases "a < b")
  case True
  then have "(a + 1) * s \<le> b * s" using assms(1) by (intro mult_right_mono) simp_all
  then have "a * s + s \<le> b * s" by (simp add: algebra_simps)
  with assms show ?thesis by linarith
next
  case False
  with assms(2) have "(b + 1) * s \<le> a * s" using assms(1) by (intro mult_right_mono) simp_all
  then have "b * s + s \<le> a * s" by (simp add: algebra_simps)
  with assms show ?thesis by linarith
qed

lemma inverse_slice_done_cong:
  assumes "inverse_slice_done X flmn L N storage n fn"
    and "\<And>i. 0 \<le> i \<Longrightarrow> i < L * (2 * L - 1)
           \<Longrightarrow> cell fn' ((if n < 0 then n + 2 * N - 1 else n) * (L * (2 * L - 1)) + i)
               = cell fn ((if n < 0 then n + 2 * N - 1 else n) * (L * (2 * L - 1)) + i)"
  shows "inverse_slice_done X flmn L N storage n fn'"
  using assms unfolding inverse_slice_done_def by simp

lemma slice_el0_le:
  assumes "- N + 1 \<le> n" "n \<le> N - 1" "0 < L"
    and "storage \<in> {SO3_STORE_ZERO_FIRST_COMPACT, SO3_STORE_NEG_FIRST_COMPACT} \<longrightarrow> N \<le> L + 1"
  shows "slice_el0 storage n \<le> L"
  using assms by (auto simp: slice_el0_def)

lemma valid_storage:
  assumes "storage \<in> {SO3_STORE_ZERO_FIRST_PAD, SO3_STORE_NEG_FIRST_PAD,
                       SO3_STORE_ZERO_FIRST_COMPACT, SO3_STORE_NEG_FIRST_COMPACT}"
  shows "is_pad storage \<or> is_compact storage"
  using assms by (auto simp: is_pad_def is_compact_def)

lemma sizes_eq:
  assumes "0 < L" "0 < N" "2 * N \<le> INT_MAX" "(2 * N - 1) * (L * (2 * L - 1)) \<le> INT_MAX"
  shows "fn_n_stride_of L = Inr (L * (2 * L - 1))"
    and "fn_size N (L * (2 * L - 1)) = Inr ((2 * N - 1) * (L * (2 * L - 1)))"
    and "c_val (L * L) = Inr (L * L)" and "L * L \<le> INT_MAX"
proof -
  define s where "s = L * (2 * L - 1)"
  have "1 * 1 \<le> L * (2 * L - 1)" using assms(1) by (intro mult_mono) simp_all
  then have s1: "1 \<le> s" by (simp add: s_def)
  have "1 * s \<le> (2 * N - 1) * s" using assms(2) s1 by (intro mult_right_mono) simp_all
  then have sm: "s \<le> INT_MAX" using assms(4) by (simp add: s_def)
  have l2: "2 * L \<le> INT_MAX"
  proof (cases "L = 1")
    case True
    then show ?thesis by (simp add: INT_MAX_def)
  next
    case False
    then have "2 * (2 * L - 1) \<le> L * (2 * L - 1)" using assms(1) by (intro mult_right_mono) simp_all
    then have "2 * (2 * L - 1) \<le> s" by (simp only: s_def)
    moreover have "2 * (2 * L - 1) = 4 * L - 2" by simp
    ultimately have "4 * L - 2 \<le> s" by (simp only:)
    with sm assms(1) show ?thesis by linarith
  qed
  have "L * L \<le> L * (2 * L - 1)" using assms(1) by (intro mult_left_mono) simp_all
  then show ll: "L * L \<le> INT_MAX" using sm by (simp add: s_def)
  show "c_val (L * L) = Inr (L * L)" using ll by (intro c_val_ok) simp_all
  have v: "c_val (2 * L) = Inr (2 * L)" "c_val (2 * L - 1) = Inr (2 * L - 1)" "c_val s = Inr s"
    using assms(1) l2 sm s1 by (simp_all add: c_val_ok)
  show "fn_n_stride_of L = Inr (L * (2 * L - 1))"
    unfolding fn_n_stride_of_def s_def [symmetric] by (simp only: v ebind_Inr s_def [symmetric])
  have w: "c_val (2 * N) = Inr (2 * N)" "c_val (2 * N - 1) = Inr (2 * N - 1)"
    "c_val ((2 * N - 1) * s) = Inr ((2 * N - 1) * s)"
    using assms(2,3,4) s1 by (simp_all add: c_val_ok s_def)
  show "fn_size N (L * (2 * L - 1)) = Inr ((2 * N - 1) * (L * (2 * L - 1)))"
    unfolding fn_size_def s_def [symmetric] by (simp only: w ebind_Inr)
qed

lemma inverse_loop_eq:
  assumes valid: "is_pad storage \<or> is_compact storage" and L: "0 < L" and N: "0 < N"
    and NL: "storage \<in> {SO3_STORE_ZERO_FIRST_COMPACT, SO3_STORE_NEG_FIRST_COMPACT} \<longrightarrow> N \<le> L + 1"
    and rng: "2 * N \<le> INT_MAX" "(2 * N - 1) * (L * (2 * L - 1)) \<le> INT_MAX" "L * L \<le> INT_MAX"
    and lens: "len flm = L * L" "len fn = (2 * N - 1) * (L * (2 * L - 1))"
    and ind: "\<And>n. - N + 1 \<le> n \<Longrightarrow> n \<le> N - 1 \<Longrightarrow> 0 \<le> slice_ind X L N storage n
          \<and> slice_ind X L N storage n + (L\<^sup>2 - (slice_el0 storage n)\<^sup>2) \<le> len flmn"
    and out: "\<And>xs n. int (length (ssht_core_mw_inverse_sov_sym X xs L n)) = L * (2 * L - 1)"
  shows "\<exists>fn' flm'. for_range_e (- N + 1) (N - 1)
          (inverse_slice X flmn L N storage (L * (2 * L - 1))) (fn, flm)
        = Inr (fn', flm')
     \<and> len fn' = len fn
     \<and> (\<forall>n. - N + 1 \<le> n \<and> n \<le> N - 1 \<longrightarrow> inverse_slice_done X flmn L N storage n fn')"
proof -
  define s where "s = L * (2 * L - 1)"
  define slot where "slot = (\<lambda>n. if n < 0 then n + 2 * N - 1 else n)"
  have s0: "0 \<le> s" using L by (simp add: s_def)
  define I where "I = (\<lambda>i (p :: complex cbuf \<times> complex cbuf).
     len (fst p) = len fn \<and> len (snd p) = L * L
     \<and> (\<forall>n. - N + 1 \<le> n \<and> n < i \<longrightarrow> inverse_slice_done X flmn L N storage n (fst p)))"
  have "\<exists>p'. for_range_e (- N + 1) (N - 1) (inverse_slice X flmn L N storage s) (fn, flm) = Inr p'
      \<and> I (N - 1 + 1) p'"
  proof (rule for_range_e_rule)
    show "- N + 1 \<le> N - 1 + 1" using N by simp
    show "I (- N + 1) (fn, flm)" by (auto simp: I_def lens)
    show "\<exists>p'. inverse_slice X flmn L N storage s i p = Inr p' \<and> I (i + 1) p'"
      if i: "- N + 1 \<le> i" "i \<le> N - 1" and Ip: "I i p" for i p
    proof -
      obtain c d where p: "p = (c, d)" by (cases p)
      from Ip have lc: "len c = (2 * N - 1) * (L * (2 * L - 1))" and ld: "len d = L * L"
        and prev: "\<And>n. - N + 1 \<le> n \<Longrightarrow> n < i \<Longrightarrow> inverse_slice_done X flmn L N storage n c"
        by (simp_all add: I_def p lens)
      note b = ind [OF i]
      from inverse_slice_eq [OF valid L i ld lc slice_el0_le [OF i L NL] b [THEN conjunct1]
          b [THEN conjunct2] out rng]
      obtain c' d' where r: "inverse_slice X flmn L N storage s i (c, d) = Inr (c', d')"
        and lc': "len c' = len c" and ld': "len d' = L * L"
        and dn: "inverse_slice_done X flmn L N storage i c'"
        and fr: "\<forall>k. k < slot i * s \<or> slot i * s + s \<le> k \<longrightarrow> cell c' k = cell c k"
        unfolding s_def slot_def by (elim exE conjE)
      have "inverse_slice_done X flmn L N storage n c'" if n: "- N + 1 \<le> n" "n < i + 1" for n
      proof (cases "n = i")
        case True
        with dn show ?thesis by simp
      next
        case False
        with n have ni: "n < i" by simp
        then have n2: "n \<le> N - 1" using i by simp
        have ne: "slot n \<noteq> slot i"
          unfolding slot_def using n(1) n2 i False by (rule slot_inj)
        show ?thesis
        proof (rule inverse_slice_done_cong [OF prev [OF n(1) ni]])
          fix j :: int
          assume j: "0 \<le> j" "j < L * (2 * L - 1)"
          have "slot n * s + j < slot i * s \<or> slot i * s + s \<le> slot n * s + j"
            using s0 ne j unfolding s_def [symmetric] by (intro block_disjoint)
          with fr have "cell c' (slot n * s + j) = cell c (slot n * s + j)" by blast
          then show "cell c' ((if n < 0 then n + 2 * N - 1 else n) * (L * (2 * L - 1)) + j)
               = cell c ((if n < 0 then n + 2 * N - 1 else n) * (L * (2 * L - 1)) + j)"
            unfolding s_def slot_def .
        qed
      qed
      then show ?thesis
        using r lc' ld' lc by (simp add: I_def p lens)
    qed
  qed
  then obtain p' where 1: "for_range_e (- N + 1) (N - 1) (inverse_slice X flmn L N storage s) (fn, flm) = Inr p'"
    and 2: "I (N - 1 + 1) p'" by blast
  obtain c d where p: "p' = (c, d)" by (cases p')
  show ?thesis
    using 1 2 unfolding p I_def s_def by (intro exI [of _ c] exI [of _ d]) simp
qed

text \<open>
  \<^bold>\<open>Claim C5\<close>, as amended. Let the layout be one of the four, \<open>L\<close> and \<open>N\<close> positive,
  \<open>N \<le> L + 1\<close> if the layout is compact, \<open>2N\<close> and \<open>(2N-1) L (2L-1)\<close> at most \<open>INT_MAX\<close>,
  the allocations successful, the blocks of coefficients inside \<open>flmn\<close>, and let the SSHT
  inverse return \<open>L(2L-1)\<close> samples. Then \<open>so3_core_mw_inverse_via_ssht\<close> returns and, for
  every \<open>n\<close> in \<open>-N+1..N-1\<close>, has processed the slice as \<open>inverse_slice_done\<close> says: the
  buffer of \<open>L\<^sup>2\<close> coefficients holds zero below degree \<open>|n|\<close> and the \<open>L\<^sup>2 - n\<^sup>2\<close>
  coefficients of the degrees from \<open>|n|\<close> on from position \<open>n\<^sup>2\<close> (compact layouts; the whole
  block in padded ones), each times \<open>sqrt((2l+1)/(16\<pi>\<^sup>3))\<close>; the SSHT inverse is called on
  it with spin \<open>-n\<close>; its samples, negated when \<open>n\<close> is odd, are the slice of \<open>fn\<close> at index
  \<open>n\<close> for \<open>n \<ge> 0\<close> and \<open>n + 2N - 1\<close> for \<open>n < 0\<close>. After the slices there is one execution
  of one FFTW plan: backward, of length \<open>2N-1\<close>, across the slices (stride \<open>L(2L-1)\<close>),
  once for each of the \<open>L(2L-1)\<close> sample positions, on the \<open>(2N-1) L (2L-1)\<close> values of
  \<open>fn\<close>; its output is the result.
\<close>

theorem inverse_via_ssht_slices:
  assumes "storage \<in> {SO3_STORE_ZERO_FIRST_PAD, SO3_STORE_NEG_FIRST_PAD,
                       SO3_STORE_ZERO_FIRST_COMPACT, SO3_STORE_NEG_FIRST_COMPACT}"
    and "0 < L" and "0 < N"
    and "storage \<in> {SO3_STORE_ZERO_FIRST_COMPACT, SO3_STORE_NEG_FIRST_COMPACT} \<longrightarrow> N \<le> L + 1"
    and "2 * N \<le> INT_MAX" and "(2 * N - 1) * (L * (2 * L - 1)) \<le> INT_MAX"
    and "mem ''fn''" and "mem ''flm''"
    and "\<forall>n. - N + 1 \<le> n \<and> n \<le> N - 1 \<longrightarrow> 0 \<le> slice_ind X L N storage n
          \<and> slice_ind X L N storage n + (L\<^sup>2 - (slice_el0 storage n)\<^sup>2) \<le> len flmn"
    and "\<forall>xs n. int (length (ssht_core_mw_inverse_sov_sym X xs L n)) = L * (2 * L - 1)"
  shows "\<exists>fn. len fn = (2 * N - 1) * (L * (2 * L - 1))
      \<and> (\<forall>n. - N + 1 \<le> n \<and> n \<le> N - 1 \<longrightarrow> inverse_slice_done X flmn L N storage n fn)
      \<and> so3_core_mw_inverse_via_ssht X mem fn0 flmn L N storage
          = ([Malloc ''fn'', Fftw_plan_many_dft, Calloc ''flm'', Free ''flm'',
              Fftw_execute, Fftw_destroy_plan, Free ''fn''],
             Inr (fftw_execute X
                    \<lparr>fftw_rank = 1, fftw_n = 2 * N - 1, fftw_howmany = L * (2 * L - 1),
                     fftw_istride = L * (2 * L - 1), fftw_idist = 1,
                     fftw_ostride = L * (2 * L - 1), fftw_odist = 1,
                     fftw_direction = FFTW_BACKWARD\<rparr>
                    (map (cell fn) [0..(2 * N - 1) * (L * (2 * L - 1)) - 1])))"
proof -
  note sz = sizes_eq [OF assms(2,3,5,6)]
  define fn1 :: "complex cbuf" where "fn1 = \<lparr>len = (2 * N - 1) * (L * (2 * L - 1)), cell = fn0\<rparr>"
  define flm1 :: "complex cbuf" where "flm1 = \<lparr>len = L * L, cell = (\<lambda>_. 0)\<rparr>"
  have l: "len flm1 = L * L" "len fn1 = (2 * N - 1) * (L * (2 * L - 1))"
    by (simp_all add: fn1_def flm1_def)
  have "\<exists>fn' flm'. for_range_e (- N + 1) (N - 1)
          (inverse_slice X flmn L N storage (L * (2 * L - 1))) (fn1, flm1)
        = Inr (fn', flm')
     \<and> len fn' = len fn1
     \<and> (\<forall>n. - N + 1 \<le> n \<and> n \<le> N - 1 \<longrightarrow> inverse_slice_done X flmn L N storage n fn')"
    by (rule inverse_loop_eq [OF valid_storage [OF assms(1)] assms(2,3,4,5,6) sz(4) l])
      (simp_all add: assms(9,10))
  then obtain fn' flm' where r: "for_range_e (- N + 1) (N - 1)
          (inverse_slice X flmn L N storage (L * (2 * L - 1))) (fn1, flm1)
        = Inr (fn', flm')"
    and l': "len fn' = len fn1"
    and d: "\<forall>n. - N + 1 \<le> n \<and> n \<le> N - 1 \<longrightarrow> inverse_slice_done X flmn L N storage n fn'"
    by (elim exE conjE)
  have "so3_core_mw_inverse_via_ssht X mem fn0 flmn L N storage
          = ([Malloc ''fn'', Fftw_plan_many_dft, Calloc ''flm'', Free ''flm'',
              Fftw_execute, Fftw_destroy_plan, Free ''fn''],
             Inr (fftw_execute X
                    \<lparr>fftw_rank = 1, fftw_n = 2 * N - 1, fftw_howmany = L * (2 * L - 1),
                     fftw_istride = L * (2 * L - 1), fftw_idist = 1,
                     fftw_ostride = L * (2 * L - 1), fftw_odist = 1,
                     fftw_direction = FFTW_BACKWARD\<rparr>
                    (map (cell fn') [0..(2 * N - 1) * (L * (2 * L - 1)) - 1])))"
    unfolding so3_core_mw_inverse_via_ssht_def sz(1,2,3) sum.case Let_def fn1_def [symmetric]
      flm1_def [symmetric] r buf_read_0
    using assms(7,8) by simp
  with l' d l(2) show ?thesis by (intro exI [of _ fn']) simp
qed

subsection \<open>One slice of the forward\<close>

lemma forward_switch_eq:
  assumes valid: "is_pad storage \<or> is_compact storage"
    and fl: "is_compact storage \<longrightarrow> len flm = L * L"
    and e0: "0 \<le> slice_el0 storage n" and el0: "slice_el0 storage n \<le> L"
    and ind: "0 \<le> slice_ind X L N storage n"
      "slice_ind X L N storage n + (L\<^sup>2 - (slice_el0 storage n)\<^sup>2) \<le> len flmn"
    and out: "int (length (ssht_core_mw_forward_sov_conv_sym X
                 (buf_read fn (off * s) s) L (- n))) = L * L"
    and cv: "0 \<le> off * s" "off * s \<le> INT_MAX" and ll: "L * L \<le> INT_MAX"
  shows "\<exists>flmn' flm'. forward_switch X fn L N storage s n off flmn flm
        = Inr (flmn', flm', slice_ind X L N storage n, slice_el0 storage n)
     \<and> len flmn' = len flmn \<and> len flm' = len flm
     \<and> (\<forall>k. slice_ind X L N storage n \<le> k
             \<and> k < slice_ind X L N storage n + (L\<^sup>2 - (slice_el0 storage n)\<^sup>2) \<longrightarrow>
           cell flmn' k = ssht_core_mw_forward_sov_conv_sym X
                 (buf_read fn (off * s) s) L (- n)
               ! nat ((slice_el0 storage n)\<^sup>2 + (k - slice_ind X L N storage n)))
     \<and> (\<forall>k. k < slice_ind X L N storage n
             \<or> slice_ind X L N storage n + (L\<^sup>2 - (slice_el0 storage n)\<^sup>2) \<le> k \<longrightarrow>
           cell flmn' k = cell flmn k)"
proof -
  define coeffs where "coeffs = ssht_core_mw_forward_sov_conv_sym X
                 (buf_read fn (off * s) s) L (- n)"
  have lc: "int (length coeffs) = L * L" by (simp add: coeffs_def out)
  have L2: "L\<^sup>2 = L * L" by (simp add: power2_eq_square)
  have st: "c_val (off * s) = Inr (off * s)" using cv by (rule c_val_ok)
  show ?thesis
  proof (cases "is_pad storage")
    case True
    define ind where "ind = so3_sampling_elmn2ind X 0 0 n L N storage"
    have e: "slice_el0 storage n = 0" "slice_ind X L N storage n = ind"
      using True by (simp_all add: slice_pad ind_def)
    define flmn1 where "flmn1 = flmn\<lparr>cell := (\<lambda>k. if ind \<le> k \<and> k < ind + L * L
                              then coeffs ! nat (k - ind) else cell flmn k)\<rparr>"
    have w: "buf_write flmn ind coeffs = Inr flmn1"
      using ind unfolding e L2 by (simp add: buf_write_def lc flmn1_def)
    have "forward_switch X fn L N storage s n off flmn flm = Inr (flmn1, flm, ind, 0)"
      using True
      by (simp only: forward_switch_def Let_def if_True ind_def [symmetric] st ebind_Inr
          coeffs_def [symmetric] w)
    then show ?thesis
      unfolding e coeffs_def [symmetric] L2
      by (intro exI [of _ flmn1] exI [of _ flm]) (auto simp: flmn1_def)
  next
    case False
    with valid have c: "is_compact storage" by simp
    define ind where "ind = so3_sampling_elmn2ind X \<bar>n\<bar> (- \<bar>n\<bar>) n L N storage"
    have e: "slice_el0 storage n = \<bar>n\<bar>" "slice_ind X L N storage n = ind"
      using c by (simp_all add: slice_compact ind_def)
    have sq: "\<bar>n\<bar>\<^sup>2 = n * n" by (simp add: power2_eq_square)
    have nL: "n * n \<le> L * L"
      using e0 el0 power_mono [of "\<bar>n\<bar>" L 2] unfolding e sq L2 by simp
    have n0: "0 \<le> n * n" by simp
    have lf: "len flm = L * L" using fl c by simp
    define flm1 where "flm1 = flm\<lparr>cell := (\<lambda>k. if 0 \<le> k \<and> k < 0 + L * L
                              then coeffs ! nat (k - 0) else cell flm k)\<rparr>"
    have w: "buf_write flm 0 coeffs = Inr flm1"
      by (simp add: buf_write_def lc lf flm1_def)
    define flmn1 where "flmn1 = flmn\<lparr>cell := (\<lambda>k. if ind \<le> k \<and> k < ind + (L * L - n * n)
                              then cell flm1 (n * n + (k - ind)) else cell flmn k)\<rparr>"
    have m: "memcpy flmn ind flm1 (n * n) (L * L - n * n) = Inr flmn1"
    proof -
      have "len flm1 = L * L" by (simp add: flm1_def lf)
      then show ?thesis
        using ind nL n0 unfolding e sq L2 by (simp add: memcpy_def flmn1_def)
    qed
    note cc = compact_count_eq [OF nL ll]
    have "forward_switch X fn L N storage s n off flmn flm = Inr (flmn1, flm1, ind, \<bar>n\<bar>)"
      using False c
      by (simp only: forward_switch_def Let_def if_True if_False ind_def [symmetric] st ebind_Inr
          coeffs_def [symmetric] w cc m)
    moreover have "cell flmn1 k = coeffs ! nat (n * n + (k - ind))"
      if "ind \<le> k" "k < ind + (L * L - n * n)" for k
      using that n0 by (simp add: flmn1_def flm1_def)
    moreover have "cell flmn1 k = cell flmn k" if "k < ind \<or> ind + (L * L - n * n) \<le> k" for k
      using that by (auto simp: flmn1_def)
    moreover have "len flmn1 = len flmn" "len flm1 = len flm" by (simp_all add: flmn1_def flm1_def)
    ultimately show ?thesis
      unfolding e coeffs_def [symmetric] L2 sq
      by (intro exI [of _ flmn1] exI [of _ flm1]) simp
  qed
qed

lemma index_from_degree:
  assumes "0 \<le> (e::int)" "e \<le> l" "l < L" "- l \<le> m" "m \<le> l"
  shows "0 \<le> l\<^sup>2 + l + m - e\<^sup>2" "l\<^sup>2 + l + m - e\<^sup>2 < L\<^sup>2 - e\<^sup>2"
proof -
  have "e\<^sup>2 \<le> l\<^sup>2" using assms(1,2) by (intro power_mono) simp_all
  with assms show "0 \<le> l\<^sup>2 + l + m - e\<^sup>2" by linarith
  have "0 \<le> l" using assms by simp
  from index_inside [OF this assms(3,4,5)]
  show "l\<^sup>2 + l + m - e\<^sup>2 < L\<^sup>2 - e\<^sup>2" by (simp add: power2_eq_square)
qed

lemma forward_slice_eq:
  assumes valid: "is_pad storage \<or> is_compact storage"
    and fl: "is_compact storage \<longrightarrow> len flm = L * L"
    and el0: "slice_el0 storage n \<le> L"
    and ind: "0 \<le> slice_ind X L N storage n"
      "slice_ind X L N storage n + (L\<^sup>2 - (slice_el0 storage n)\<^sup>2) \<le> len flmn"
    and out: "\<And>xs. int (length (ssht_core_mw_forward_sov_conv_sym X xs L (- n))) = L * L"
    and L: "0 < L" and n: "- N + 1 \<le> n" "n \<le> N - 1"
    and rng: "2 * N \<le> INT_MAX" "(2 * N - 1) * (L * (2 * L - 1)) \<le> INT_MAX" "L * L \<le> INT_MAX"
      "slice_ind X L N storage n + (L\<^sup>2 - (slice_el0 storage n)\<^sup>2) \<le> INT_MAX"
  shows "\<exists>flmn' flm'. forward_slice X fn L N storage (L * (2 * L - 1)) n (flmn, flm)
        = Inr (flmn', flm')
     \<and> len flmn' = len flmn \<and> len flm' = len flm
     \<and> forward_slice_done X fn L N storage n flmn'
     \<and> (\<forall>k. k < slice_ind X L N storage n
             \<or> slice_ind X L N storage n + (L\<^sup>2 - (slice_el0 storage n)\<^sup>2) \<le> k \<longrightarrow>
           cell flmn' k = cell flmn k)"
proof -
  define e where "e = slice_el0 storage n"
  define ind where "ind = slice_ind X L N storage n"
  define s where "s = L * (2 * L - 1)"
  define off where "off = (if n < 0 then n + 2 * N - 1 else n)"
  define coeffs where "coeffs = ssht_core_mw_forward_sov_conv_sym X (buf_read fn (off * s) s) L (- n)"
  have s0: "0 \<le> s" using L by (simp add: s_def)
  note o = slot_range [OF n, folded off_def]
  have "off \<le> (2 * N - 1) - 1" using o by simp
  note blk = block_inside [OF s0 o(1) this]
  have noff: "n_offset N n = Inr off" unfolding off_def by (rule n_offset_eq [OF n rng(1)])
  have top: "(2 * N - 1) * s \<le> INT_MAX" using rng(2) by (simp add: s_def)
  have cv: "0 \<le> off * s" "off * s \<le> INT_MAX" using blk s0 top by simp_all
  define factor :: "int \<Rightarrow> complex"
    where "factor = (\<lambda>el. of_int (if odd n then - 1 else 1)
                          * of_real (sqrt (4 * pi / of_int (2 * el + 1))))"
  have e0: "0 \<le> e" by (simp add: e_def slice_el0_def)
  from forward_switch_eq [where fn = fn, OF valid fl e0 [unfolded e_def] el0 ind out cv rng(3)]
  obtain flmn1 flm1 where 1: "forward_switch X fn L N storage s n off flmn flm = Inr (flmn1, flm1, ind, e)"
    and l1: "len flmn1 = len flmn" "len flm1 = len flm"
    and c1: "\<forall>k. ind \<le> k \<and> k < ind + (L\<^sup>2 - e\<^sup>2) \<longrightarrow> cell flmn1 k = coeffs ! nat (e\<^sup>2 + (k - ind))"
    and f1: "\<forall>k. k < ind \<or> ind + (L\<^sup>2 - e\<^sup>2) \<le> k \<longrightarrow> cell flmn1 k = cell flmn k"
    unfolding e_def ind_def coeffs_def by (elim exE conjE)
  have "ind + (L\<^sup>2 - e\<^sup>2) \<le> len flmn1" using ind(2) by (simp add: l1 ind_def e_def)
  moreover have "L\<^sup>2 \<le> INT_MAX" using rng(3) by (simp add: power2_eq_square)
  moreover note rng(4) [folded ind_def e_def]
  ultimately have "\<exists>buf'. scale_by_degree ind e L factor flmn1 = Inr buf' \<and> len buf' = len flmn1
     \<and> (\<forall>l m. e \<le> l \<and> l < L \<and> - l \<le> m \<and> m \<le> l
           \<longrightarrow> cell buf' (ind + (l\<^sup>2 + l + m - e\<^sup>2))
               = cell flmn1 (ind + (l\<^sup>2 + l + m - e\<^sup>2)) * factor l)
     \<and> (\<forall>k. k < ind \<or> ind + (L\<^sup>2 - e\<^sup>2) \<le> k \<longrightarrow> cell buf' k = cell flmn1 k)"
    by (intro scale_by_degree_eq e0 el0 [folded e_def] ind(1) [folded ind_def])
  then
  obtain flmn2 where 2: "scale_by_degree ind e L factor flmn1 = Inr flmn2"
    and l2: "len flmn2 = len flmn1"
    and c2: "\<forall>l m. e \<le> l \<and> l < L \<and> - l \<le> m \<and> m \<le> l
           \<longrightarrow> cell flmn2 (ind + (l\<^sup>2 + l + m - e\<^sup>2)) = cell flmn1 (ind + (l\<^sup>2 + l + m - e\<^sup>2)) * factor l"
    and f2: "\<forall>k. k < ind \<or> ind + (L\<^sup>2 - e\<^sup>2) \<le> k \<longrightarrow> cell flmn2 k = cell flmn1 k"
    by (elim exE conjE)
  have sg: "(if c_rem n 2 \<noteq> 0 then - 1 else 1 :: int) = (if odd n then - 1 else 1)"
    by (simp only: c_rem_2)
  have run: "forward_slice X fn L N storage s n (flmn, flm) = Inr (flmn2, flm1)"
    by (simp only: forward_slice_def prod.case Let_def sg noff 1 ebind_Inr factor_def [symmetric] 2)
  have rd: "buf_read fn (off * s) s = map (\<lambda>i. cell fn (off * s + i)) [0..s - 1]"
    by (simp add: buf_read_def)
  have cf: "cell flmn2 (ind + (l\<^sup>2 + l + m - e\<^sup>2)) = coeffs ! nat (l\<^sup>2 + l + m) * factor l"
    if lm: "e \<le> l" "l < L" "- l \<le> m" "m \<le> l" for l m
  proof -
    note i = index_from_degree [OF e0 lm]
    have "cell flmn2 (ind + (l\<^sup>2 + l + m - e\<^sup>2)) = cell flmn1 (ind + (l\<^sup>2 + l + m - e\<^sup>2)) * factor l"
      using c2 lm by simp
    also have "cell flmn1 (ind + (l\<^sup>2 + l + m - e\<^sup>2))
        = coeffs ! nat (e\<^sup>2 + (ind + (l\<^sup>2 + l + m - e\<^sup>2) - ind))"
      using c1 i by simp
    also have "e\<^sup>2 + (ind + (l\<^sup>2 + l + m - e\<^sup>2) - ind) = l\<^sup>2 + l + m" by simp
    finally show ?thesis .
  qed
  have post: "forward_slice_done X fn L N storage n flmn2"
    unfolding forward_slice_done_def e_def [symmetric] ind_def [symmetric] off_def [symmetric]
      s_def [symmetric] rd [symmetric] coeffs_def [symmetric]
  proof (intro allI impI)
    fix l m
    assume "e \<le> l \<and> l < L \<and> - l \<le> m \<and> m \<le> l"
    then have "cell flmn2 (ind + (l\<^sup>2 + l + m - e\<^sup>2)) = coeffs ! nat (l\<^sup>2 + l + m) * factor l"
      using cf by blast
    then show "cell flmn2 (ind + (l\<^sup>2 + l + m - e\<^sup>2))
        = coeffs ! nat (l\<^sup>2 + l + m)
          * (of_int (if odd n then - 1 else 1) * of_real (sqrt (4 * pi / of_int (2 * l + 1))))"
      unfolding factor_def .
  qed
  have frame: "cell flmn2 k = cell flmn k" if "k < ind \<or> ind + (L\<^sup>2 - e\<^sup>2) \<le> k" for k
  proof -
    from f2 that have "cell flmn2 k = cell flmn1 k" by blast
    also from f1 that have "cell flmn1 k = cell flmn k" by blast
    finally show ?thesis .
  qed
  show ?thesis
    using run l2 l1 post frame unfolding e_def ind_def s_def
    by (intro exI [of _ flmn2] exI [of _ flm1]) simp
qed

lemma forward_slice_done_cong:
  assumes "forward_slice_done X fn L N storage n flmn"
    and "\<And>k. slice_ind X L N storage n \<le> k
           \<Longrightarrow> k < slice_ind X L N storage n + (L\<^sup>2 - (slice_el0 storage n)\<^sup>2)
           \<Longrightarrow> cell flmn' k = cell flmn k"
  shows "forward_slice_done X fn L N storage n flmn'"
proof -
  have e0: "0 \<le> slice_el0 storage n" by (simp add: slice_el0_def)
  have "cell flmn' (slice_ind X L N storage n + (l\<^sup>2 + l + m - (slice_el0 storage n)\<^sup>2))
      = cell flmn (slice_ind X L N storage n + (l\<^sup>2 + l + m - (slice_el0 storage n)\<^sup>2))"
    if lm: "slice_el0 storage n \<le> l" "l < L" "- l \<le> m" "m \<le> l" for l m
    using index_from_degree [OF e0 lm] by (intro assms(2)) simp_all
  with assms(1) show ?thesis unfolding forward_slice_done_def by simp
qed

subsection \<open>All slices of the forward\<close>

lemma forward_loop_eq:
  assumes valid: "is_pad storage \<or> is_compact storage" and L: "0 < L" and N: "0 < N"
    and NL: "storage \<in> {SO3_STORE_ZERO_FIRST_COMPACT, SO3_STORE_NEG_FIRST_COMPACT} \<longrightarrow> N \<le> L + 1"
    and rng: "2 * N \<le> INT_MAX" "(2 * N - 1) * (L * (2 * L - 1)) \<le> INT_MAX" "L * L \<le> INT_MAX"
      "len flmn \<le> INT_MAX"
    and fl: "is_compact storage \<longrightarrow> len flm = L * L"
    and ind: "\<forall>n. - N + 1 \<le> n \<and> n \<le> N - 1 \<longrightarrow> 0 \<le> slice_ind X L N storage n
          \<and> slice_ind X L N storage n + (L\<^sup>2 - (slice_el0 storage n)\<^sup>2) \<le> len flmn"
    and dis: "\<forall>n n'. - N + 1 \<le> n \<and> n \<le> N - 1 \<and> - N + 1 \<le> n' \<and> n' \<le> N - 1 \<and> n \<noteq> n' \<longrightarrow>
          slice_ind X L N storage n + (L\<^sup>2 - (slice_el0 storage n)\<^sup>2) \<le> slice_ind X L N storage n'
          \<or> slice_ind X L N storage n' + (L\<^sup>2 - (slice_el0 storage n')\<^sup>2)
              \<le> slice_ind X L N storage n"
    and out: "\<forall>xs n. int (length (ssht_core_mw_forward_sov_conv_sym X xs L n)) = L * L"
  shows "\<exists>flmn' flm'. for_range_e (- N + 1) (N - 1) (forward_slice X fn L N storage (L * (2 * L - 1))) (flmn, flm)
        = Inr (flmn', flm')
     \<and> len flmn' = len flmn
     \<and> (\<forall>n. - N + 1 \<le> n \<and> n \<le> N - 1 \<longrightarrow> forward_slice_done X fn L N storage n flmn')
     \<and> (\<forall>k. (\<forall>n. - N + 1 \<le> n \<and> n \<le> N - 1 \<longrightarrow>
                 k < slice_ind X L N storage n
                 \<or> slice_ind X L N storage n + (L\<^sup>2 - (slice_el0 storage n)\<^sup>2) \<le> k)
           \<longrightarrow> cell flmn' k = cell flmn k)"
proof -
  define lo where "lo = (\<lambda>n. slice_ind X L N storage n)"
  define hi where "hi = (\<lambda>n. slice_ind X L N storage n + (L\<^sup>2 - (slice_el0 storage n)\<^sup>2))"
  define I where "I = (\<lambda>i (p :: complex cbuf \<times> complex cbuf).
     len (fst p) = len flmn \<and> len (snd p) = len flm
     \<and> (\<forall>n. - N + 1 \<le> n \<and> n < i \<longrightarrow> forward_slice_done X fn L N storage n (fst p))
     \<and> (\<forall>k. (\<forall>n. - N + 1 \<le> n \<and> n < i \<longrightarrow> k < lo n \<or> hi n \<le> k)
            \<longrightarrow> cell (fst p) k = cell flmn k))"
  have "\<exists>p'. for_range_e (- N + 1) (N - 1) (forward_slice X fn L N storage (L * (2 * L - 1))) (flmn, flm) = Inr p'
      \<and> I (N - 1 + 1) p'"
  proof (rule for_range_e_rule)
    show "- N + 1 \<le> N - 1 + 1" using N by simp
    show "I (- N + 1) (flmn, flm)" by (auto simp: I_def)
    show "\<exists>p'. forward_slice X fn L N storage (L * (2 * L - 1)) i p = Inr p' \<and> I (i + 1) p'"
      if i: "- N + 1 \<le> i" "i \<le> N - 1" and Ip: "I i p" for i p
    proof -
      obtain c d where p: "p = (c, d)" by (cases p)
      from Ip have lc: "len c = len flmn" and ld: "len d = len flm"
        and prev: "\<And>n. - N + 1 \<le> n \<Longrightarrow> n < i \<Longrightarrow> forward_slice_done X fn L N storage n c"
        and fr0: "\<And>k. (\<forall>n. - N + 1 \<le> n \<and> n < i \<longrightarrow> k < lo n \<or> hi n \<le> k)
            \<Longrightarrow> cell c k = cell flmn k"
        by (simp_all add: I_def p)
      have b: "0 \<le> slice_ind X L N storage i"
        "slice_ind X L N storage i + (L\<^sup>2 - (slice_el0 storage i)\<^sup>2) \<le> len c"
        using ind i by (simp_all add: lc)
      have fd: "is_compact storage \<longrightarrow> len d = L * L" using fl by (simp add: ld)
      have o: "int (length (ssht_core_mw_forward_sov_conv_sym X xs L (- i))) = L * L" for xs
        using out by simp
      have r4: "slice_ind X L N storage i + (L\<^sup>2 - (slice_el0 storage i)\<^sup>2) \<le> INT_MAX"
        using b(2) rng(4) lc by simp
      from forward_slice_eq [where fn = fn, OF valid fd slice_el0_le [OF i L NL] b o L i rng(1,2,3) r4]
      obtain c' d' where r: "forward_slice X fn L N storage (L * (2 * L - 1)) i (c, d) = Inr (c', d')"
        and lc': "len c' = len c" and ld': "len d' = len d"
        and dn: "forward_slice_done X fn L N storage i c'"
        and fr: "\<forall>k. k < lo i \<or> hi i \<le> k \<longrightarrow> cell c' k = cell c k"
        unfolding lo_def hi_def by (elim exE conjE)
      have d1: "forward_slice_done X fn L N storage n c'" if n: "- N + 1 \<le> n" "n < i + 1" for n
      proof (cases "n = i")
        case True
        with dn show ?thesis by simp
      next
        case False
        with n have ni: "n < i" by simp
        then have n2: "n \<le> N - 1" using i by simp
        have sep: "hi n \<le> lo i \<or> hi i \<le> lo n"
          using dis n(1) n2 i False unfolding lo_def hi_def by blast
        show ?thesis
        proof (rule forward_slice_done_cong [OF prev [OF n(1) ni]])
          fix k :: int
          assume "slice_ind X L N storage n \<le> k"
            "k < slice_ind X L N storage n + (L\<^sup>2 - (slice_el0 storage n)\<^sup>2)"
          then have "lo n \<le> k" "k < hi n" by (simp_all add: lo_def hi_def)
          with sep have "k < lo i \<or> hi i \<le> k" by linarith
          with fr show "cell c' k = cell c k" by blast
        qed
      qed
      have d2: "cell c' k = cell flmn k"
        if k: "\<forall>n. - N + 1 \<le> n \<and> n < i + 1 \<longrightarrow> k < lo n \<or> hi n \<le> k" for k
      proof -
        from k i have "k < lo i \<or> hi i \<le> k" by simp
        with fr have "cell c' k = cell c k" by blast
        also have "cell c k = cell flmn k" using k by (intro fr0) simp
        finally show ?thesis .
      qed
      show ?thesis
        using r lc' ld' lc ld d1 d2 by (simp add: I_def p)
    qed
  qed
  then obtain p' where 1: "for_range_e (- N + 1) (N - 1) (forward_slice X fn L N storage (L * (2 * L - 1))) (flmn, flm) = Inr p'"
    and 2: "I (N - 1 + 1) p'" by blast
  obtain c d where p: "p' = (c, d)" by (cases p')
  show ?thesis
    using 1 2 unfolding p I_def lo_def hi_def by (intro exI [of _ c] exI [of _ d]) simp
qed

lemma buf_read_cong:
  assumes "\<And>i. 0 \<le> i \<Longrightarrow> i < cnt \<Longrightarrow> cell a (off + i) = cell b (off + i)"
  shows "buf_read a off cnt = buf_read b off cnt"
  unfolding buf_read_def using assms by (intro map_cong) simp_all

lemma scale_cells:
  assumes "0 \<le> cnt" "cnt \<le> len buf"
  shows "for_range_e 0 (cnt - 1) (\<lambda>i c. ebind (rd c i) (\<lambda>v. wr c i (h v))) buf
     = Inr (buf\<lparr>cell := (\<lambda>k. if 0 \<le> k \<and> k < cnt then h (cell buf k) else cell buf k)\<rparr>)"
proof -
  have "for_range_e 0 (cnt - 1) (\<lambda>i c. ebind (rd c i) (\<lambda>v. wr c i (h v))) buf
     = Inr (buf\<lparr>cell := (\<lambda>k. if 0 + 0 \<le> k \<and> k \<le> 0 + (cnt - 1) then h (cell buf k)
                                else cell buf k)\<rparr>)"
  proof (rule for_cells)
    show "0 \<le> cnt - 1 + 1" using assms by simp
    show "ebind (rd c i) (\<lambda>v. wr c i (h v)) = Inr (c\<lparr>cell := (cell c)(0 + i := h (cell c (0 + i)))\<rparr>)"
      if "0 \<le> i" "i \<le> cnt - 1" "len c = len buf" for i c
      using that assms by (simp add: rd_inside wr_inside)
  qed
  moreover have "(\<lambda>k. if 0 + 0 \<le> k \<and> k \<le> 0 + (cnt - 1) then h (cell buf k) else cell buf k)
      = (\<lambda>k. if 0 \<le> k \<and> k < cnt then h (cell buf k) else cell buf k)"
    by (auto simp: fun_eq_iff)
  ultimately show ?thesis by simp
qed

text \<open>
  \<^bold>\<open>Claim C6\<close>, as amended. Let the layout be one of the four, \<open>L\<close> and \<open>N\<close> positive,
  \<open>N \<le> L + 1\<close> if the layout is compact, \<open>2N\<close>, \<open>(2N-1) L (2L-1)\<close> and the length of \<open>flmn\<close>
  at most \<open>INT_MAX\<close>, the allocations successful, the input of at least \<open>(2N-1) L (2L-1)\<close>
  samples, the blocks of coefficients inside \<open>flmn\<close> and not overlapping, and let the FFT
  return as many values as it reads and the SSHT forward \<open>L\<^sup>2\<close> coefficients. Then
  \<open>so3_core_mw_forward_via_ssht\<close> returns, and: \<open>fn\<close> holds the forward FFT (one plan of
  length \<open>2N-1\<close> across the slices, executed once before any slice is processed) of the
  first \<open>(2N-1) L (2L-1)\<close> values of the input, every value times \<open>2\<pi>/(2N-1)\<close>; for every
  \<open>n\<close> in \<open>-N+1..N-1\<close> the output holds, as \<open>forward_slice_done\<close> says, the coefficients
  that the SSHT forward returns for the \<open>L(2L-1)\<close> samples of the slice of \<open>fn\<close> at index \<open>n\<close>
  (\<open>n + 2N - 1\<close> for \<open>n < 0\<close>) and spin \<open>-n\<close>, each times \<open>sign(n) sqrt(4\<pi>/(2l+1))\<close> with
  \<open>sign(n) = -1\<close> for odd \<open>n\<close> and \<open>1\<close> for even \<open>n\<close>, from degree \<open>0\<close> in a padded layout
  and from degree \<open>|n|\<close> in a compact one; every entry of the output outside these blocks
  is left as it was.
\<close>

theorem forward_via_ssht_slices:
  assumes "storage \<in> {SO3_STORE_ZERO_FIRST_PAD, SO3_STORE_NEG_FIRST_PAD,
                       SO3_STORE_ZERO_FIRST_COMPACT, SO3_STORE_NEG_FIRST_COMPACT}"
    and "0 < L" and "0 < N"
    and "storage \<in> {SO3_STORE_ZERO_FIRST_COMPACT, SO3_STORE_NEG_FIRST_COMPACT} \<longrightarrow> N \<le> L + 1"
    and "2 * N \<le> INT_MAX" and "(2 * N - 1) * (L * (2 * L - 1)) \<le> INT_MAX"
    and "len flmn \<le> INT_MAX"
    and "mem ''ftemp''" and "mem ''fn''"
    and "storage \<in> {SO3_STORE_ZERO_FIRST_COMPACT, SO3_STORE_NEG_FIRST_COMPACT} \<longrightarrow> mem ''flm''"
    and "(2 * N - 1) * (L * (2 * L - 1)) \<le> len f"
    and "\<forall>n. - N + 1 \<le> n \<and> n \<le> N - 1 \<longrightarrow> 0 \<le> slice_ind X L N storage n
          \<and> slice_ind X L N storage n + (L\<^sup>2 - (slice_el0 storage n)\<^sup>2) \<le> len flmn"
    and "\<forall>n n'. - N + 1 \<le> n \<and> n \<le> N - 1 \<and> - N + 1 \<le> n' \<and> n' \<le> N - 1 \<and> n \<noteq> n' \<longrightarrow>
          slice_ind X L N storage n + (L\<^sup>2 - (slice_el0 storage n)\<^sup>2) \<le> slice_ind X L N storage n'
          \<or> slice_ind X L N storage n' + (L\<^sup>2 - (slice_el0 storage n')\<^sup>2)
              \<le> slice_ind X L N storage n"
    and "\<forall>xs n. int (length (ssht_core_mw_forward_sov_conv_sym X xs L n)) = L * L"
    and "\<forall>p xs. length (fftw_execute X p xs) = length xs"
  shows "\<exists>fn flmn'.
        len fn = (2 * N - 1) * (L * (2 * L - 1))
      \<and> (\<forall>k. 0 \<le> k \<and> k < (2 * N - 1) * (L * (2 * L - 1)) \<longrightarrow>
            cell fn k
              = fftw_execute X
                    \<lparr>fftw_rank = 1, fftw_n = 2 * N - 1, fftw_howmany = L * (2 * L - 1),
                     fftw_istride = L * (2 * L - 1), fftw_idist = 1,
                     fftw_ostride = L * (2 * L - 1), fftw_odist = 1,
                     fftw_direction = FFTW_FORWARD\<rparr>
                    (map (cell f) [0..(2 * N - 1) * (L * (2 * L - 1)) - 1]) ! nat k
                * of_real (2 * pi / of_int (2 * N - 1)))
      \<and> len flmn' = len flmn
      \<and> (\<forall>n. - N + 1 \<le> n \<and> n \<le> N - 1 \<longrightarrow> forward_slice_done X fn L N storage n flmn')
      \<and> (\<forall>k. (\<forall>n. - N + 1 \<le> n \<and> n \<le> N - 1 \<longrightarrow>
                  k < slice_ind X L N storage n
                  \<or> slice_ind X L N storage n + (L\<^sup>2 - (slice_el0 storage n)\<^sup>2) \<le> k)
            \<longrightarrow> cell flmn' k = cell flmn k)
      \<and> so3_core_mw_forward_via_ssht X mem flm0 flmn f L N storage
          = ([Malloc ''ftemp'', Malloc ''fn'', Fftw_plan_many_dft, Fftw_execute,
              Fftw_destroy_plan, Free ''ftemp'']
               @ (if storage \<in> {SO3_STORE_ZERO_FIRST_COMPACT, SO3_STORE_NEG_FIRST_COMPACT}
                  then [Malloc ''flm'', Free ''flm''] else [])
               @ [Free ''fn''],
             Inr flmn')"
proof -
  note sz = sizes_eq [OF assms(2,3,5,6)]
  note valid = valid_storage [OF assms(1)]
  have ic: "is_compact storage \<longleftrightarrow>
      storage \<in> {SO3_STORE_ZERO_FIRST_COMPACT, SO3_STORE_NEG_FIRST_COMPACT}"
    by (auto simp: is_compact_def)
  define T where "T = (2 * N - 1) * (L * (2 * L - 1))"
  define plan where "plan = \<lparr>fftw_rank = 1, fftw_n = 2 * N - 1, fftw_howmany = L * (2 * L - 1),
                     fftw_istride = L * (2 * L - 1), fftw_idist = 1,
                     fftw_ostride = L * (2 * L - 1), fftw_odist = 1,
                     fftw_direction = FFTW_FORWARD\<rparr>"
  define c :: complex where "c = of_real (2 * pi / of_int (2 * N - 1))"
  have T0: "0 \<le> T" using assms(2,3) by (simp add: T_def)
  define Z :: "complex cbuf" where "Z = \<lparr>len = T, cell = (\<lambda>_. 0)\<rparr>"
  define ftemp where "ftemp = Z\<lparr>cell := (\<lambda>k. if 0 \<le> k \<and> k < 0 + T then cell f (0 + (k - 0))
                                   else cell Z k)\<rparr>"
  have lZ: "len Z = T" by (simp add: Z_def)
  have 1: "memcpy Z 0 f 0 T = Inr ftemp"
    using T0 assms(11) lZ by (simp add: memcpy_def ftemp_def T_def [symmetric])
  have rdt: "buf_read ftemp 0 T = buf_read f 0 T"
    by (rule buf_read_cong) (simp add: ftemp_def)
  define out where "out = fftw_execute X plan (buf_read f 0 T)"
  have lo: "int (length out) = T" using T0 assms(15) by (simp add: out_def length_buf_read)
  define fn1 where "fn1 = Z\<lparr>cell := (\<lambda>k. if 0 \<le> k \<and> k < 0 + int (length out)
                                  then out ! nat (k - 0) else cell Z k)\<rparr>"
  have 2: "buf_write Z 0 out = Inr fn1"
    by (simp add: buf_write_def lo fn1_def lZ)
  have lf1: "len fn1 = T" by (simp add: fn1_def lZ)
  define fn2 where "fn2 = fn1\<lparr>cell := (\<lambda>k. if 0 \<le> k \<and> k < T then cell fn1 k * c else cell fn1 k)\<rparr>"
  have 3: "for_range_e 0 (T - 1) (\<lambda>i fn. ebind (rd fn i) (\<lambda>v. wr fn i (v * c))) fn1 = Inr fn2"
    unfolding fn2_def using T0 by (intro scale_cells) (simp_all add: lf1)
  have lf2: "len fn2 = T" by (simp add: fn2_def lf1)
  have cf: "cell fn2 k = out ! nat k * c" if "0 \<le> k" "k < T" for k
    using that by (simp add: fn2_def fn1_def lo)
  have fl_len: "(if is_compact storage then c_val (L * L) else Inr 0)
      = Inr (if is_compact storage then L * L else 0)"
    using sz(3) by simp
  define flm :: "complex cbuf"
    where "flm = \<lparr>len = (if is_compact storage \<and> mem ''flm''
                         then (if is_compact storage then L * L else 0) else 0), cell = flm0\<rparr>"
  have fl: "is_compact storage \<longrightarrow> len flm = L * L"
  proof
    assume c: "is_compact storage"
    with ic assms(10) have "mem ''flm''" by blast
    with c show "len flm = L * L" by (simp add: flm_def)
  qed
  from forward_loop_eq [OF valid assms(2,3,4,5,6) sz(4) assms(7) fl assms(12,13,14), of fn2]
  obtain flmn' flm' where 4: "for_range_e (- N + 1) (N - 1)
          (forward_slice X fn2 L N storage (L * (2 * L - 1))) (flmn, flm)
        = Inr (flmn', flm')"
    and l4: "len flmn' = len flmn"
    and d4: "\<forall>n. - N + 1 \<le> n \<and> n \<le> N - 1 \<longrightarrow> forward_slice_done X fn2 L N storage n flmn'"
    and f4: "\<forall>k. (\<forall>n. - N + 1 \<le> n \<and> n \<le> N - 1 \<longrightarrow>
                 k < slice_ind X L N storage n
                 \<or> slice_ind X L N storage n + (L\<^sup>2 - (slice_el0 storage n)\<^sup>2) \<le> k)
           \<longrightarrow> cell flmn' k = cell flmn k"
    by (elim exE conjE)
  have run: "so3_core_mw_forward_via_ssht X mem flm0 flmn f L N storage
          = ([Malloc ''ftemp'', Malloc ''fn'', Fftw_plan_many_dft, Fftw_execute,
              Fftw_destroy_plan, Free ''ftemp'']
               @ (if storage \<in> {SO3_STORE_ZERO_FIRST_COMPACT, SO3_STORE_NEG_FIRST_COMPACT}
                  then [Malloc ''flm'', Free ''flm''] else [])
               @ [Free ''fn''],
             Inr flmn')"
    unfolding so3_core_mw_forward_via_ssht_def sz(1,2) sum.case Let_def T_def [symmetric]
      Z_def [symmetric] plan_def [symmetric] 1 rdt out_def [symmetric] 2 ebind_Inr
      c_def [symmetric] 3 fl_len flm_def [symmetric] 4
    using assms(8,9) ic by simp
  have rd0: "buf_read f 0 T = map (cell f) [0..T - 1]" by (rule buf_read_0)
  show ?thesis
    unfolding T_def [symmetric] plan_def [symmetric] rd0 [symmetric] out_def [symmetric]
      c_def [symmetric]
    using lf2 cf l4 d4 f4 run by (intro exI [of _ fn2] exI [of _ flmn']) simp
qed

subsection \<open>A storage tag that is not a layout\<close>

lemma not_other [simp]:
  "\<not> is_pad (SO3_STORE_OTHER k)" "\<not> is_compact (SO3_STORE_OTHER k)"
  by (simp_all add: is_pad_def is_compact_def)

text \<open>
  \<^bold>\<open>Claim C8\<close>, as amended. For a storage tag that is none of the four layouts, positive
  \<open>L\<close> and \<open>N\<close> with \<open>2N\<close> and \<open>(2N-1) L (2L-1)\<close> at most \<open>INT_MAX\<close>, successful allocations,
  an input of at least \<open>(2N-1) L (2L-1)\<close> samples and an FFT that returns as many values as
  it reads, both functions end with the error \<open>Invalid storage method.\<close> The tag is looked
  at in the loop over \<open>n\<close> only, so the error comes at the first slice: in the inverse
  after \<open>fn\<close> and \<open>flm\<close> have been allocated and the plan made, in the forward after \<open>ftemp\<close>
  and \<open>fn\<close> have been allocated, the FFT executed and \<open>ftemp\<close> freed. No buffer allocated
  before is freed on the way out.
\<close>

theorem invalid_storage_reported:
  assumes "0 < L" and "0 < N"
    and "2 * N \<le> INT_MAX" and "(2 * N - 1) * (L * (2 * L - 1)) \<le> INT_MAX"
    and "mem ''ftemp''" and "mem ''fn''" and "mem ''flm''"
    and "(2 * N - 1) * (L * (2 * L - 1)) \<le> len f"
    and "\<forall>p xs. length (fftw_execute X p xs) = length xs"
  shows "so3_core_mw_inverse_via_ssht X mem fn0 flmn L N (SO3_STORE_OTHER k)
        = ([Malloc ''fn'', Fftw_plan_many_dft, Calloc ''flm''],
           Inl (SO3_ERROR_GENERIC ''Invalid storage method.''))
     \<and> so3_core_mw_forward_via_ssht X mem flm0 flmn f L N (SO3_STORE_OTHER k)
        = ([Malloc ''ftemp'', Malloc ''fn'', Fftw_plan_many_dft, Fftw_execute,
            Fftw_destroy_plan, Free ''ftemp''],
           Inl (SO3_ERROR_GENERIC ''Invalid storage method.''))"
proof -
  note sz = sizes_eq [OF assms(1-4)]
  have n: "- N + 1 \<le> N - 1" using assms(2) by simp
  have i: "for_range_e (- N + 1) (N - 1)
        (inverse_slice X flmn L N (SO3_STORE_OTHER k) (L * (2 * L - 1))) p
      = Inl (SO3_ERROR_GENERIC ''Invalid storage method.'')" for p
  proof -
    obtain a b where p: "p = (a, b)" by (cases p)
    have h: "inverse_slice X flmn L N (SO3_STORE_OTHER k) (L * (2 * L - 1)) (- N + 1) (a, b)
        = Inl (SO3_ERROR_GENERIC ''Invalid storage method.'')"
      by (simp add: inverse_slice_def inverse_switch_def)
    show ?thesis unfolding p for_range_e_step [OF n] h by simp
  qed
  have inv: "so3_core_mw_inverse_via_ssht X mem fn0 flmn L N (SO3_STORE_OTHER k)
        = ([Malloc ''fn'', Fftw_plan_many_dft, Calloc ''flm''],
           Inl (SO3_ERROR_GENERIC ''Invalid storage method.''))"
    unfolding so3_core_mw_inverse_via_ssht_def sz(1,2,3) sum.case Let_def i
    using assms(6,7) by simp
  have f: "for_range_e (- N + 1) (N - 1)
        (forward_slice X fn L N (SO3_STORE_OTHER k) (L * (2 * L - 1))) p
      = Inl (SO3_ERROR_GENERIC ''Invalid storage method.'')" for p fn
  proof -
    obtain a b where p: "p = (a, b)" by (cases p)
    have "n_offset N (- N + 1) = Inr (if - N + 1 < 0 then - N + 1 + 2 * N - 1 else - N + 1)"
      using n assms(3) by (intro n_offset_eq) simp_all
    then have h: "forward_slice X fn L N (SO3_STORE_OTHER k) (L * (2 * L - 1)) (- N + 1) (a, b)
        = Inl (SO3_ERROR_GENERIC ''Invalid storage method.'')"
      unfolding forward_slice_def prod.case Let_def by (simp add: forward_switch_def)
    show ?thesis unfolding p for_range_e_step [OF n] h by simp
  qed
  define T where "T = (2 * N - 1) * (L * (2 * L - 1))"
  define plan where "plan = \<lparr>fftw_rank = 1, fftw_n = 2 * N - 1, fftw_howmany = L * (2 * L - 1),
                     fftw_istride = L * (2 * L - 1), fftw_idist = 1,
                     fftw_ostride = L * (2 * L - 1), fftw_odist = 1,
                     fftw_direction = FFTW_FORWARD\<rparr>"
  define c :: complex where "c = of_real (2 * pi / of_int (2 * N - 1))"
  have T0: "0 \<le> T" using assms(1,2) by (simp add: T_def)
  define Z :: "complex cbuf" where "Z = \<lparr>len = T, cell = (\<lambda>_. 0)\<rparr>"
  have lZ: "len Z = T" by (simp add: Z_def)
  define ftemp where "ftemp = Z\<lparr>cell := (\<lambda>k. if 0 \<le> k \<and> k < 0 + T then cell f (0 + (k - 0))
                                   else cell Z k)\<rparr>"
  have 1: "memcpy Z 0 f 0 T = Inr ftemp"
    using T0 assms(8) lZ by (simp add: memcpy_def ftemp_def T_def [symmetric])
  define out where "out = fftw_execute X plan (buf_read ftemp 0 T)"
  have lo: "int (length out) = T" using T0 assms(9) by (simp add: out_def length_buf_read)
  define fn1 where "fn1 = Z\<lparr>cell := (\<lambda>k. if 0 \<le> k \<and> k < 0 + int (length out)
                                  then out ! nat (k - 0) else cell Z k)\<rparr>"
  have 2: "buf_write Z 0 out = Inr fn1"
    by (simp add: buf_write_def lo fn1_def lZ)
  have lf1: "len fn1 = T" by (simp add: fn1_def lZ)
  define fn2 where "fn2 = fn1\<lparr>cell := (\<lambda>k. if 0 \<le> k \<and> k < T then cell fn1 k * c else cell fn1 k)\<rparr>"
  have 3: "for_range_e 0 (T - 1) (\<lambda>i fn. ebind (rd fn i) (\<lambda>v. wr fn i (v * c))) fn1 = Inr fn2"
    unfolding fn2_def using T0 by (intro scale_cells) (simp_all add: lf1)
  have fwd: "so3_core_mw_forward_via_ssht X mem flm0 flmn f L N (SO3_STORE_OTHER k)
        = ([Malloc ''ftemp'', Malloc ''fn'', Fftw_plan_many_dft, Fftw_execute,
            Fftw_destroy_plan, Free ''ftemp''],
           Inl (SO3_ERROR_GENERIC ''Invalid storage method.''))"
    unfolding so3_core_mw_forward_via_ssht_def sz(1,2) sum.case Let_def T_def [symmetric]
      Z_def [symmetric] plan_def [symmetric] 1 out_def [symmetric] 2 ebind_Inr c_def [symmetric] 3 f
    using assms(5,6) by simp
  from inv fwd show ?thesis by simp
qed

subsection \<open>The core at small band-limits\<close>

lemma sum_list_4:
  assumes "length xs = 4"
  shows "sum_list xs = xs ! 0 + (xs ! 1 + (xs ! 2 + (xs ! 3 :: 'a :: comm_monoid_add)))"
proof -
  from assms obtain a b c d where "xs = [a, b, c, d]"
    by (auto simp: length_Suc_conv eval_nat_numeral)
  then show ?thesis by simp
qed

lemma three_slices: "- 2 + 1 \<le> n \<Longrightarrow> n \<le> 2 - 1 \<Longrightarrow> n = - 1 \<or> n = 0 \<or> n = (1::int)"
  by arith

lemma example_compact_blocks:
  "slice_el0 SO3_STORE_NEG_FIRST_COMPACT n = \<bar>n\<bar>"
  "slice_ind example_externals 2 2 SO3_STORE_NEG_FIRST_COMPACT (- 1) = 1"
  "slice_ind example_externals 2 2 SO3_STORE_NEG_FIRST_COMPACT 0 = 4"
  "slice_ind example_externals 2 2 SO3_STORE_NEG_FIRST_COMPACT 1 = 9"
  by (simp_all add: slice_ind_def slice_el0_def example_externals_def)

theorem inverse_via_ssht_slices_witness:
  "\<exists>fn :: complex cbuf. len fn = 18
     \<and> cell fn 12 = - (6 * of_real (sqrt (3 / (16 * pi ^ 3))))
     \<and> so3_core_mw_inverse_via_ssht example_externals (\<lambda>_. True) (\<lambda>_. 0)
          \<lparr>len = 12, cell = of_int\<rparr> 2 2 SO3_STORE_NEG_FIRST_COMPACT
        = ([Malloc ''fn'', Fftw_plan_many_dft, Calloc ''flm'', Free ''flm'',
            Fftw_execute, Fftw_destroy_plan, Free ''fn''],
           Inr (map (cell fn) [0..17]))"
proof -
  define S where "S = SO3_STORE_NEG_FIRST_COMPACT"
  define flmn :: "complex cbuf" where "flmn = \<lparr>len = 12, cell = of_int\<rparr>"
  note b = example_compact_blocks [folded S_def]
  have v: "S \<in> {SO3_STORE_ZERO_FIRST_PAD, SO3_STORE_NEG_FIRST_PAD,
                 SO3_STORE_ZERO_FIRST_COMPACT, SO3_STORE_NEG_FIRST_COMPACT}"
    by (simp add: S_def)
  have p: "(0::int) < 2" by simp
  have c: "S \<in> {SO3_STORE_ZERO_FIRST_COMPACT, SO3_STORE_NEG_FIRST_COMPACT} \<longrightarrow> (2::int) \<le> 2 + 1"
    by simp
  have r: "2 * 2 \<le> INT_MAX" "(2 * 2 - 1) * (2 * (2 * 2 - 1)) \<le> INT_MAX"
    by (simp_all add: INT_MAX_def)
  have i: "\<forall>n. - 2 + 1 \<le> n \<and> n \<le> 2 - 1 \<longrightarrow>
          0 \<le> slice_ind example_externals 2 2 S n
          \<and> slice_ind example_externals 2 2 S n + (2\<^sup>2 - (slice_el0 S n)\<^sup>2) \<le> len flmn"
  proof (intro allI impI)
    fix n :: int
    assume "- 2 + 1 \<le> n \<and> n \<le> 2 - 1"
    then have "n = - 1 \<or> n = 0 \<or> n = 1" using three_slices by simp
    then show "0 \<le> slice_ind example_externals 2 2 S n
          \<and> slice_ind example_externals 2 2 S n + (2\<^sup>2 - (slice_el0 S n)\<^sup>2) \<le> len flmn"
      by (elim disjE) (simp_all add: b flmn_def)
  qed
  have out: "\<forall>xs n. int (length (ssht_core_mw_inverse_sov_sym example_externals xs 2 n))
      = 2 * (2 * 2 - 1)"
    by (simp add: example_externals_def)
  from inverse_via_ssht_slices [where X = example_externals and mem = "\<lambda>_. True" and L = 2
      and N = 2 and storage = S and flmn = flmn and ?fn0.0 = "\<lambda>_. 0",
      OF v p p c r TrueI TrueI i out]
  obtain fn where 1: "len fn = (2 * 2 - 1) * (2 * (2 * 2 - 1))"
    and 2: "\<forall>n. - 2 + 1 \<le> n \<and> n \<le> 2 - 1
          \<longrightarrow> inverse_slice_done example_externals flmn 2 2 S n fn"
    and 3: "so3_core_mw_inverse_via_ssht example_externals (\<lambda>_. True) (\<lambda>_. 0) flmn 2 2 S
          = ([Malloc ''fn'', Fftw_plan_many_dft, Calloc ''flm'', Free ''flm'',
              Fftw_execute, Fftw_destroy_plan, Free ''fn''],
             Inr (fftw_execute example_externals
                    \<lparr>fftw_rank = 1, fftw_n = 2 * 2 - 1, fftw_howmany = 2 * (2 * 2 - 1),
                     fftw_istride = 2 * (2 * 2 - 1), fftw_idist = 1,
                     fftw_ostride = 2 * (2 * 2 - 1), fftw_odist = 1,
                     fftw_direction = FFTW_BACKWARD\<rparr>
                    (map (cell fn) [0..(2 * 2 - 1) * (2 * (2 * 2 - 1)) - 1])))"
    by (elim exE conjE)
  from 2 have "inverse_slice_done example_externals flmn 2 2 S (- 1) fn" by simp
  then obtain flm where l: "int (length flm) = 2 * 2"
    and e: "\<forall>l m. 0 \<le> l \<and> l < 2 \<and> - l \<le> m \<and> m \<le> l \<longrightarrow>
              flm ! nat (l\<^sup>2 + l + m)
                = (if l < slice_el0 S (- 1) then 0
                   else cell flmn (slice_ind example_externals 2 2 S (- 1)
                                    + (l\<^sup>2 + l + m - (slice_el0 S (- 1))\<^sup>2)))
                  * of_real (sqrt (of_int (2 * l + 1) / (16 * pi ^ 3)))"
    and f: "\<forall>i. 0 \<le> i \<and> i < 2 * (2 * 2 - 1) \<longrightarrow>
              cell fn ((if (- 1 :: int) < 0 then - 1 + 2 * 2 - 1 else - 1) * (2 * (2 * 2 - 1)) + i)
                = (if odd (- 1 :: int) then - 1 else 1)
                  * ssht_core_mw_inverse_sov_sym example_externals flm 2 (- (- 1)) ! nat i"
    unfolding inverse_slice_done_def by (elim exE conjE)
  from e [rule_format, of 0 0] have e0: "flm ! 0 = 0" by (simp add: b)
  from e [rule_format, of 1 "- 1"] have e1: "flm ! Suc 0 = of_real (sqrt (3 / (16 * pi ^ 3)))"
    by (simp add: b flmn_def)
  from e [rule_format, of 1 0] have e2: "flm ! 2 = 2 * of_real (sqrt (3 / (16 * pi ^ 3)))"
    by (simp add: b flmn_def)
  from e [rule_format, of 1 1] have e3: "flm ! 3 = 3 * of_real (sqrt (3 / (16 * pi ^ 3)))"
    by (simp add: b flmn_def)
  from l have "length flm = 4" by simp
  then have s: "sum_list flm = 6 * of_real (sqrt (3 / (16 * pi ^ 3)))"
    by (simp add: sum_list_4 e0 e1 e2 e3)
  from f [rule_format, of 0] have "cell fn 12 = - (6 * of_real (sqrt (3 / (16 * pi ^ 3))))"
    by (simp add: example_externals_def s)
  then have c12: "cell fn 12 = - (6 * of_real (sqrt (3 / (16 * pi ^ 3))))" .
  have a: "(18::int) - 1 = 17" "(2 * 2 - 1) * (2 * (2 * 2 - 1)) = (18::int)"
    by simp_all
  have x: "fftw_execute example_externals plan xs = xs" for plan xs
    by (simp add: example_externals_def)
  from 1 have l18: "len fn = 18" by (simp only: a)
  from 3 have r: "so3_core_mw_inverse_via_ssht example_externals (\<lambda>_. True) (\<lambda>_. 0)
          \<lparr>len = 12, cell = of_int\<rparr> 2 2 SO3_STORE_NEG_FIRST_COMPACT
        = ([Malloc ''fn'', Fftw_plan_many_dft, Calloc ''flm'', Free ''flm'',
            Fftw_execute, Fftw_destroy_plan, Free ''fn''],
           Inr (map (cell fn) [0..17]))"
    unfolding S_def flmn_def by (simp only: a x)
  from l18 c12 r show ?thesis by (intro exI [of _ fn] conjI)
qed

lemma for_range_e_stops:
  assumes "a \<le> b" "body a s = Inl e"
  shows "for_range_e a b body s = Inl e"
  by (simp add: for_range_e_step [OF assms(1)] assms(2))

text \<open>
  The inverse outside these bounds. With a compact layout, \<open>L = 1\<close> and \<open>N = 3\<close>, the first
  slice is \<open>n = -2\<close>, and \<open>memcpy\<close> is called with the count \<open>L*L - n*n = -3\<close>. With
  \<open>L = N = 814\<close> the product \<open>(2*N-1)*fn_n_stride\<close> is \<open>1627 * 1324378\<close>, more than \<open>INT_MAX\<close>.
\<close>

theorem inverse_beyond_band_limit:
  "so3_core_mw_inverse_via_ssht example_externals (\<lambda>_. True) (\<lambda>_. 0)
       \<lparr>len = 5, cell = of_int\<rparr> 1 3 SO3_STORE_NEG_FIRST_COMPACT
     = ([Malloc ''fn'', Fftw_plan_many_dft, Calloc ''flm''], Inl Undefined_behaviour)
   \<and> so3_core_mw_inverse_via_ssht example_externals (\<lambda>_. True) (\<lambda>_. 0)
       \<lparr>len = 1075972083, cell = of_int\<rparr> 814 814 SO3_STORE_NEG_FIRST_PAD
     = ([], Inl Undefined_behaviour)"
proof -
  have "inverse_slice example_externals \<lparr>len = 5, cell = of_int\<rparr> 1 3
          SO3_STORE_NEG_FIRST_COMPACT 1 (- 3 + 1) p = Inl Undefined_behaviour" for p
    by (cases p)
      (simp add: inverse_slice_def inverse_switch_def is_pad_def is_compact_def
        compact_count_def c_val_def INT_MAX_def INT_MIN_def memcpy_def)
  then have l: "for_range_e (- 3 + 1) (3 - 1)
      (inverse_slice example_externals \<lparr>len = 5, cell = of_int\<rparr> 1 3
          SO3_STORE_NEG_FIRST_COMPACT 1) p = Inl Undefined_behaviour" for p
    by (intro for_range_e_stops) simp_all
  have s: "fn_n_stride_of 1 = Inr 1" "fn_size 3 1 = Inr 5" "c_val (1 * 1) = Inr 1"
    "fn_n_stride_of 814 = Inr 1324378" "fn_size 814 1324378 = Inl Undefined_behaviour"
    by (simp_all add: fn_n_stride_of_def fn_size_def c_val_def INT_MAX_def INT_MIN_def)
  have "so3_core_mw_inverse_via_ssht example_externals (\<lambda>_. True) (\<lambda>_. 0)
       \<lparr>len = 5, cell = of_int\<rparr> 1 3 SO3_STORE_NEG_FIRST_COMPACT
     = ([Malloc ''fn'', Fftw_plan_many_dft, Calloc ''flm''], Inl Undefined_behaviour)"
    unfolding so3_core_mw_inverse_via_ssht_def s sum.case Let_def l by simp
  moreover have "so3_core_mw_inverse_via_ssht example_externals (\<lambda>_. True) (\<lambda>_. 0)
       \<lparr>len = 1075972083, cell = of_int\<rparr> 814 814 SO3_STORE_NEG_FIRST_PAD
     = ([], Inl Undefined_behaviour)"
    unfolding so3_core_mw_inverse_via_ssht_def s sum.case by simp
  ultimately show ?thesis by simp
qed

lemma nth_map_cells:
  assumes "0 \<le> i" "i < cnt"
  shows "map (cell (b :: 'a cbuf)) [0..cnt - 1] ! nat i = cell b i"
  using nth_buf_read [OF assms, of b 0] by (simp add: buf_read_0)

lemma upto_0_5: "[0..5::int] = [0, 1, 2, 3, 4, 5]"
  by (simp add: upto.simps)

theorem forward_via_ssht_slices_witness:
  "\<exists>flmn' :: complex cbuf.
       cell flmn' 0 = 0
     \<and> cell flmn' 1 = - (of_real (58 * pi) * of_real (sqrt (4 * pi / 3)))
     \<and> so3_core_mw_forward_via_ssht example_externals (\<lambda>_. True) (\<lambda>_. 0)
          \<lparr>len = 12, cell = (\<lambda>_. 0)\<rparr> \<lparr>len = 18, cell = of_int\<rparr> 2 2 SO3_STORE_NEG_FIRST_COMPACT
        = ([Malloc ''ftemp'', Malloc ''fn'', Fftw_plan_many_dft, Fftw_execute,
            Fftw_destroy_plan, Free ''ftemp'', Malloc ''flm'', Free ''flm'', Free ''fn''],
           Inr flmn')"
proof -
  define S where "S = SO3_STORE_NEG_FIRST_COMPACT"
  define flmn :: "complex cbuf" where "flmn = \<lparr>len = 12, cell = (\<lambda>_. 0)\<rparr>"
  define f :: "complex cbuf" where "f = \<lparr>len = 18, cell = of_int\<rparr>"
  note b = example_compact_blocks [folded S_def]
  have v: "S \<in> {SO3_STORE_ZERO_FIRST_PAD, SO3_STORE_NEG_FIRST_PAD,
                 SO3_STORE_ZERO_FIRST_COMPACT, SO3_STORE_NEG_FIRST_COMPACT}"
    by (simp add: S_def)
  have p: "(0::int) < 2" by simp
  have c: "S \<in> {SO3_STORE_ZERO_FIRST_COMPACT, SO3_STORE_NEG_FIRST_COMPACT} \<longrightarrow> (2::int) \<le> 2 + 1"
    by simp
  have r: "2 * 2 \<le> INT_MAX" "(2 * 2 - 1) * (2 * (2 * 2 - 1)) \<le> INT_MAX" "len flmn \<le> INT_MAX"
    by (simp_all add: INT_MAX_def flmn_def)
  have m: "S \<in> {SO3_STORE_ZERO_FIRST_COMPACT, SO3_STORE_NEG_FIRST_COMPACT} \<longrightarrow> True" by simp
  have lf: "(2 * 2 - 1) * (2 * (2 * 2 - 1)) \<le> len f" by (simp add: f_def)
  have i: "\<forall>n. - 2 + 1 \<le> n \<and> n \<le> 2 - 1 \<longrightarrow>
          0 \<le> slice_ind example_externals 2 2 S n
          \<and> slice_ind example_externals 2 2 S n + (2\<^sup>2 - (slice_el0 S n)\<^sup>2) \<le> len flmn"
  proof (intro allI impI)
    fix n :: int
    assume "- 2 + 1 \<le> n \<and> n \<le> 2 - 1"
    then have "n = - 1 \<or> n = 0 \<or> n = 1" using three_slices by simp
    then show "0 \<le> slice_ind example_externals 2 2 S n
          \<and> slice_ind example_externals 2 2 S n + (2\<^sup>2 - (slice_el0 S n)\<^sup>2) \<le> len flmn"
      by (elim disjE) (simp_all add: b flmn_def)
  qed
  have d: "\<forall>n n'. - 2 + 1 \<le> n \<and> n \<le> 2 - 1 \<and> - 2 + 1 \<le> n' \<and> n' \<le> 2 - 1 \<and> n \<noteq> n' \<longrightarrow>
          slice_ind example_externals 2 2 S n + (2\<^sup>2 - (slice_el0 S n)\<^sup>2)
            \<le> slice_ind example_externals 2 2 S n'
          \<or> slice_ind example_externals 2 2 S n' + (2\<^sup>2 - (slice_el0 S n')\<^sup>2)
              \<le> slice_ind example_externals 2 2 S n"
  proof (intro allI impI)
    fix n n' :: int
    assume a: "- 2 + 1 \<le> n \<and> n \<le> 2 - 1 \<and> - 2 + 1 \<le> n' \<and> n' \<le> 2 - 1 \<and> n \<noteq> n'"
    then have "n = - 1 \<or> n = 0 \<or> n = 1" "n' = - 1 \<or> n' = 0 \<or> n' = 1"
      using three_slices by simp_all
    with a show "slice_ind example_externals 2 2 S n + (2\<^sup>2 - (slice_el0 S n)\<^sup>2)
            \<le> slice_ind example_externals 2 2 S n'
          \<or> slice_ind example_externals 2 2 S n' + (2\<^sup>2 - (slice_el0 S n')\<^sup>2)
              \<le> slice_ind example_externals 2 2 S n"
      by (elim disjE) (simp_all add: b)
  qed
  have out: "\<forall>xs n. int (length (ssht_core_mw_forward_sov_conv_sym example_externals xs 2 n)) = 2 * 2"
    by (simp add: example_externals_def)
  have x: "\<forall>p xs. length (fftw_execute example_externals p xs) = length xs"
    by (simp add: example_externals_def)
  from forward_via_ssht_slices [where X = example_externals and mem = "\<lambda>_. True" and L = 2
      and N = 2 and storage = S and flmn = flmn and f = f and ?flm0.0 = "\<lambda>_. 0",
      OF v p p c r TrueI TrueI m lf i d out x]
  obtain fn flmn' where 1: "len fn = (2 * 2 - 1) * (2 * (2 * 2 - 1))"
    and 2: "\<forall>k. 0 \<le> k \<and> k < (2 * 2 - 1) * (2 * (2 * 2 - 1)) \<longrightarrow>
            cell fn k
              = fftw_execute example_externals
                    \<lparr>fftw_rank = 1, fftw_n = 2 * 2 - 1, fftw_howmany = 2 * (2 * 2 - 1),
                     fftw_istride = 2 * (2 * 2 - 1), fftw_idist = 1,
                     fftw_ostride = 2 * (2 * 2 - 1), fftw_odist = 1,
                     fftw_direction = FFTW_FORWARD\<rparr>
                    (map (cell f) [0..(2 * 2 - 1) * (2 * (2 * 2 - 1)) - 1]) ! nat k
                * of_real (2 * pi / of_int (2 * 2 - 1))"
    and 3: "\<forall>n. - 2 + 1 \<le> n \<and> n \<le> 2 - 1 \<longrightarrow> forward_slice_done example_externals fn 2 2 S n flmn'"
    and 4: "\<forall>k. (\<forall>n. - 2 + 1 \<le> n \<and> n \<le> 2 - 1 \<longrightarrow>
                  k < slice_ind example_externals 2 2 S n
                  \<or> slice_ind example_externals 2 2 S n + (2\<^sup>2 - (slice_el0 S n)\<^sup>2) \<le> k)
            \<longrightarrow> cell flmn' k = cell flmn k"
    and 5: "so3_core_mw_forward_via_ssht example_externals (\<lambda>_. True) (\<lambda>_. 0) flmn f 2 2 S
          = ([Malloc ''ftemp'', Malloc ''fn'', Fftw_plan_many_dft, Fftw_execute,
              Fftw_destroy_plan, Free ''ftemp'']
               @ (if S \<in> {SO3_STORE_ZERO_FIRST_COMPACT, SO3_STORE_NEG_FIRST_COMPACT}
                  then [Malloc ''flm'', Free ''flm''] else [])
               @ [Free ''fn''],
             Inr flmn')"
    by (elim exE conjE)
  have xe: "fftw_execute example_externals plan xs = xs" for plan xs
    by (simp add: example_externals_def)
  have a: "(2 * 2 - 1) * (2 * (2 * 2 - 1)) = (18::int)" by simp
  have fnk: "cell fn k = of_int k * of_real (2 * pi / 3)" if k: "0 \<le> k" "k < 18" for k
  proof -
    from 2 k have "cell fn k = map (cell f) [0..18 - 1] ! nat k * of_real (2 * pi / of_int (2 * 2 - 1))"
      by (simp only: a xe)
    also have "map (cell f) [0..18 - 1] ! nat k = cell f k" using k by (rule nth_map_cells)
    finally show ?thesis by (simp add: f_def)
  qed
  from 3 have "forward_slice_done example_externals fn 2 2 S (- 1) flmn'" by simp
  then have "cell flmn' 1
          = ssht_core_mw_forward_sov_conv_sym example_externals
              (map (\<lambda>i. cell fn ((if (- 1 :: int) < 0 then - 1 + 2 * 2 - 1 else - 1) * (2 * (2 * 2 - 1)) + i))
                 [0..2 * (2 * 2 - 1) - 1])
              2 (- (- 1))
              ! nat (1\<^sup>2 + 1 + (- 1))
            * (of_int (if odd (- 1 :: int) then - 1 else 1) * of_real (sqrt (4 * pi / of_int (2 * 1 + 1))))"
    unfolding forward_slice_done_def by (elim allE [of _ 1] allE [of _ "- 1"]) (simp add: b)
  then have c1: "cell flmn' 1 = - (of_real (58 * pi) * of_real (sqrt (4 * pi / 3)))"
    by (simp add: example_externals_def upto_0_5 fnk)
  have "\<forall>n. - 2 + 1 \<le> n \<and> n \<le> 2 - 1 \<longrightarrow>
                  0 < slice_ind example_externals 2 2 S n
                  \<or> slice_ind example_externals 2 2 S n + (2\<^sup>2 - (slice_el0 S n)\<^sup>2) \<le> 0"
  proof (intro allI impI)
    fix n :: int
    assume "- 2 + 1 \<le> n \<and> n \<le> 2 - 1"
    then have "n = - 1 \<or> n = 0 \<or> n = 1" using three_slices by simp
    then show "0 < slice_ind example_externals 2 2 S n
                  \<or> slice_ind example_externals 2 2 S n + (2\<^sup>2 - (slice_el0 S n)\<^sup>2) \<le> 0"
      by (elim disjE) (simp_all add: b)
  qed
  with 4 have "cell flmn' 0 = cell flmn 0" by blast
  then have c0: "cell flmn' 0 = 0" by (simp add: flmn_def)
  from 5 have run: "so3_core_mw_forward_via_ssht example_externals (\<lambda>_. True) (\<lambda>_. 0)
          \<lparr>len = 12, cell = (\<lambda>_. 0)\<rparr> \<lparr>len = 18, cell = of_int\<rparr> 2 2 SO3_STORE_NEG_FIRST_COMPACT
        = ([Malloc ''ftemp'', Malloc ''fn'', Fftw_plan_many_dft, Fftw_execute,
            Fftw_destroy_plan, Free ''ftemp'', Malloc ''flm'', Free ''flm'', Free ''fn''],
           Inr flmn')"
    unfolding S_def flmn_def f_def by simp
  from c0 c1 run show ?thesis by (intro exI [of _ flmn'] conjI)
qed

text \<open>
  The forward outside these bounds, at the same two inputs: the count of \<open>memcpy\<close> is
  \<open>-3\<close> in the first slice, and the size of \<open>ftemp\<close> overflows.
\<close>

theorem forward_beyond_band_limit:
  "so3_core_mw_forward_via_ssht example_externals (\<lambda>_. True) (\<lambda>_. 0)
       \<lparr>len = 5, cell = (\<lambda>_. 0)\<rparr> \<lparr>len = 5, cell = of_int\<rparr> 1 3 SO3_STORE_NEG_FIRST_COMPACT
     = ([Malloc ''ftemp'', Malloc ''fn'', Fftw_plan_many_dft, Fftw_execute,
         Fftw_destroy_plan, Free ''ftemp'', Malloc ''flm''], Inl Undefined_behaviour)
   \<and> so3_core_mw_forward_via_ssht example_externals (\<lambda>_. True) (\<lambda>_. 0)
       \<lparr>len = 1075972083, cell = (\<lambda>_. 0)\<rparr> \<lparr>len = 2147483647, cell = of_int\<rparr> 814 814
       SO3_STORE_NEG_FIRST_PAD
     = ([], Inl Undefined_behaviour)"
proof -
  define S where "S = SO3_STORE_NEG_FIRST_COMPACT"
  define flmn :: "complex cbuf" where "flmn = \<lparr>len = 5, cell = (\<lambda>_. 0)\<rparr>"
  define f :: "complex cbuf" where "f = \<lparr>len = 5, cell = of_int\<rparr>"
  define plan where "plan = \<lparr>fftw_rank = 1, fftw_n = 2 * 3 - 1, fftw_howmany = 1,
                     fftw_istride = 1, fftw_idist = 1, fftw_ostride = 1, fftw_odist = 1,
                     fftw_direction = FFTW_FORWARD\<rparr>"
  define c :: complex where "c = of_real (2 * pi / of_int (2 * 3 - 1))"
  define Z :: "complex cbuf" where "Z = \<lparr>len = 5, cell = (\<lambda>_. 0)\<rparr>"
  have lZ: "len Z = 5" by (simp add: Z_def)
  define ftemp where "ftemp = Z\<lparr>cell := (\<lambda>k. if 0 \<le> k \<and> k < 0 + 5 then cell f (0 + (k - 0))
                                   else cell Z k)\<rparr>"
  have lenf: "len f = 5" by (simp add: f_def)
  have 1: "memcpy Z 0 f 0 5 = Inr ftemp"
    using lZ lenf by (simp add: memcpy_def ftemp_def)
  define out where "out = fftw_execute example_externals plan (buf_read ftemp 0 5)"
  have lo: "int (length out) = 5" by (simp add: out_def length_buf_read example_externals_def)
  define fn1 where "fn1 = Z\<lparr>cell := (\<lambda>k. if 0 \<le> k \<and> k < 0 + int (length out)
                                  then out ! nat (k - 0) else cell Z k)\<rparr>"
  have 2: "buf_write Z 0 out = Inr fn1"
    by (simp add: buf_write_def lo fn1_def lZ)
  have lf1: "len fn1 = 5" by (simp add: fn1_def lZ)
  define fn2 where "fn2 = fn1\<lparr>cell := (\<lambda>k. if 0 \<le> k \<and> k < 5 then cell fn1 k * c else cell fn1 k)\<rparr>"
  have 3: "for_range_e 0 (5 - 1) (\<lambda>i fn. ebind (rd fn i) (\<lambda>v. wr fn i (v * c))) fn1 = Inr fn2"
    unfolding fn2_def by (intro scale_cells) (simp_all add: lf1)
  define flm :: "complex cbuf" where "flm = \<lparr>len = 1, cell = (\<lambda>_. 0)\<rparr>"
  have ic: "is_compact S" "\<not> is_pad S" by (simp_all add: S_def is_compact_def is_pad_def)
  have h: "forward_slice example_externals fn2 1 3 S 1 (- 3 + 1) (flmn, flm)
      = Inl Undefined_behaviour"
    by (simp add: forward_slice_def n_offset_def c_val_def INT_MAX_def INT_MIN_def
        forward_switch_def ic buf_write_def example_externals_def flm_def compact_count_def
        memcpy_def)
  have l: "for_range_e (- 3 + 1) (3 - 1) (forward_slice example_externals fn2 1 3 S 1) (flmn, flm)
      = Inl Undefined_behaviour"
    using h by (intro for_range_e_stops) simp_all
  have s: "fn_n_stride_of 1 = Inr 1" "fn_size 3 1 = Inr 5"
    "(if is_compact S then c_val (1 * 1) else Inr 0) = Inr 1"
    "fn_n_stride_of 814 = Inr 1324378" "fn_size 814 1324378 = Inl Undefined_behaviour"
    by (simp_all add: fn_n_stride_of_def fn_size_def c_val_def INT_MAX_def INT_MIN_def ic)
  have m: "(if is_compact S \<and> True then 1 else (0::int)) = 1" using ic by simp
  have "so3_core_mw_forward_via_ssht example_externals (\<lambda>_. True) (\<lambda>_. 0) flmn f 1 3 S
     = ([Malloc ''ftemp'', Malloc ''fn'', Fftw_plan_many_dft, Fftw_execute,
         Fftw_destroy_plan, Free ''ftemp'', Malloc ''flm''], Inl Undefined_behaviour)"
    unfolding so3_core_mw_forward_via_ssht_def s sum.case Let_def not_True_eq_False if_False
      Z_def [symmetric] plan_def [symmetric] 1 out_def [symmetric] 2 ebind_Inr c_def [symmetric] 3
      m flm_def [symmetric] l
    using ic by simp
  moreover have "so3_core_mw_forward_via_ssht example_externals (\<lambda>_. True) (\<lambda>_. 0)
       \<lparr>len = 1075972083, cell = (\<lambda>_. 0)\<rparr> \<lparr>len = 2147483647, cell = of_int\<rparr> 814 814
       SO3_STORE_NEG_FIRST_PAD
     = ([], Inl Undefined_behaviour)"
    unfolding so3_core_mw_forward_via_ssht_def s sum.case by simp
  ultimately show ?thesis unfolding S_def flmn_def f_def by simp
qed

theorem invalid_storage_reported_witness:
  "so3_core_mw_inverse_via_ssht example_externals (\<lambda>_. True) (\<lambda>_. 0) \<lparr>len = 12, cell = of_int\<rparr>
       2 2 (SO3_STORE_OTHER 7)
     = ([Malloc ''fn'', Fftw_plan_many_dft, Calloc ''flm''],
        Inl (SO3_ERROR_GENERIC ''Invalid storage method.''))
   \<and> so3_core_mw_forward_via_ssht example_externals (\<lambda>_. True) (\<lambda>_. 0) \<lparr>len = 12, cell = (\<lambda>_. 0)\<rparr>
       \<lparr>len = 18, cell = of_int\<rparr> 2 2 (SO3_STORE_OTHER 7)
     = ([Malloc ''ftemp'', Malloc ''fn'', Fftw_plan_many_dft, Fftw_execute,
         Fftw_destroy_plan, Free ''ftemp''],
        Inl (SO3_ERROR_GENERIC ''Invalid storage method.''))"
proof -
  have p: "(0::int) < 2" by simp
  have r: "2 * 2 \<le> INT_MAX" "(2 * 2 - 1) * (2 * (2 * 2 - 1)) \<le> INT_MAX"
    by (simp_all add: INT_MAX_def)
  have l: "(2 * 2 - 1) * (2 * (2 * 2 - 1)) \<le> len \<lparr>len = 18, cell = (of_int :: int \<Rightarrow> complex)\<rparr>"
    by simp
  have x: "\<forall>p xs. length (fftw_execute example_externals p xs) = length xs"
    by (simp add: example_externals_def)
  from invalid_storage_reported [where mem = "\<lambda>_. True", OF p p r TrueI TrueI TrueI l x]
  show ?thesis by simp
qed

text \<open>
  At band-limits 1 and 1 and the tag 4, the inverse has allocated \<open>fn\<close> and \<open>flm\<close> when it
  reports the error.
\<close>

theorem invalid_storage_after_allocation:
  "so3_core_mw_inverse_via_ssht example_externals (\<lambda>_. True) (\<lambda>_. 0) \<lparr>len = 1, cell = (\<lambda>_. 1)\<rparr>
       1 1 (SO3_STORE_OTHER 4)
     = ([Malloc ''fn'', Fftw_plan_many_dft, Calloc ''flm''],
        Inl (SO3_ERROR_GENERIC ''Invalid storage method.''))"
proof -
  have "inverse_slice example_externals \<lparr>len = 1, cell = (\<lambda>_. 1)\<rparr> 1 1 (SO3_STORE_OTHER 4) 1
          (- 1 + 1) p = Inl (SO3_ERROR_GENERIC ''Invalid storage method.'')" for p
    by (cases p) (simp add: inverse_slice_def inverse_switch_def is_pad_def is_compact_def)
  then have l: "for_range_e (- 1 + 1) (1 - 1)
      (inverse_slice example_externals \<lparr>len = 1, cell = (\<lambda>_. 1)\<rparr> 1 1 (SO3_STORE_OTHER 4) 1) p
      = Inl (SO3_ERROR_GENERIC ''Invalid storage method.'')" for p
    by (intro for_range_e_stops) simp_all
  have s: "fn_n_stride_of 1 = Inr 1" "fn_size 1 1 = Inr 1" "c_val (1 * 1) = Inr 1"
    by (simp_all add: fn_n_stride_of_def fn_size_def c_val_def INT_MAX_def INT_MIN_def)
  show ?thesis
    unfolding so3_core_mw_inverse_via_ssht_def s sum.case Let_def l by simp
qed

end
